theory Spec2Isabelle
  imports Main "HOL-Library.Char_ord" "HOL-Library.List_Lexorder" "HOL-Library.Sublist"
begin

section \<open>The keyword trie of \<open>miscco::keyword_trie\<close>\<close>

text \<open>
  The nodes of the trie live in the vector \<open>trieNodes\<close>; a node pointer is modelled
  as the index of the node in that vector, and \<open>root\<close> is index \<open>0\<close>
  (\<open>trieNodes.front()\<close>). The template parameter \<open>CaseSensitive\<close> is the
  argument \<open>cs\<close> of every operation that reads it.
\<close>

subsection \<open>Data\<close>

record Node =
  idN :: int
  depth :: int
  cN :: char
  parent :: nat
  failure :: nat
  outputN :: nat
  children :: "nat list"

text \<open>
  A \<open>Result\<close> stub in \<open>keywords\<close> is built by \<open>Result(key, id)\<close>, which leaves
  \<open>start\<close> and \<open>end\<close> uninitialised; they are never read, and the model stores 0.
\<close>

record Result =
  keyword :: string
  idR :: nat
  start :: nat
  endR :: nat

record keyword_trie =
  trieNodes :: "Node list"
  keywordsT :: "Result list"

datatype error = DuplicateKeywordError | InvalidStateError | OutOfRange

definition root :: nat where
  "root = 0"

text \<open>\<open>Node()\<close>: the default member initialisers; the constructor of the trie then
  points \<open>parent\<close>, \<open>failure\<close> and \<open>output\<close> of the root to the root itself.\<close>

definition rootNode :: Node where
  "rootNode = \<lparr>idN = - 1, depth = 0, cN = CHR 0x00, parent = root, failure = root,
     outputN = root, children = []\<rparr>"

text \<open>\<open>Node(d, character, par, root)\<close>.\<close>

definition newNode :: "int \<Rightarrow> char \<Rightarrow> nat \<Rightarrow> Node" where
  "newNode d character par = \<lparr>idN = - 1, depth = d, cN = character, parent = par,
     failure = root, outputN = root, children = []\<rparr>"

definition Result_stub :: "string \<Rightarrow> nat \<Rightarrow> Result" where
  "Result_stub key i = \<lparr>keyword = key, idR = i, start = 0, endR = 0\<rparr>"

text \<open>\<open>Result(res, endPos)\<close>: \<open>start(endPos - res.keyword.size() + 1)\<close> in
  \<open>std::size_t\<close>, that is modulo \<open>2 ^ 64\<close>.\<close>

definition Result_at :: "Result \<Rightarrow> nat \<Rightarrow> Result" where
  "Result_at res endPos = \<lparr>keyword = keyword res, idR = idR res,
     start = nat ((int endPos - int (length (keyword res)) + 1) mod 2 ^ 64),
     endR = endPos\<rparr>"

definition keyword_trie_init :: keyword_trie where
  "keyword_trie_init = \<lparr>trieNodes = [rootNode], keywordsT = []\<rparr>"

text \<open>\<open>std::tolower\<close> in the default "C" locale.\<close>

definition tolower :: "char \<Rightarrow> char" where
  "tolower ch = (if 65 \<le> (of_char ch :: nat) \<and> (of_char ch :: nat) \<le> 90
     then char_of ((of_char ch :: nat) + 32) else ch)"

definition fold_case :: "bool \<Rightarrow> char \<Rightarrow> char" where
  "fold_case cs character = (if cs then character else tolower character)"

subsection \<open>Insertion\<close>

text \<open>The loop \<open>for (Node *child : current->children) if (child->c == character) return child;\<close>
  shared by \<open>addChild\<close>, \<open>findChild\<close> and \<open>traverseFail\<close>.\<close>

definition childWith :: "Node list \<Rightarrow> nat \<Rightarrow> char \<Rightarrow> nat option" where
  "childWith ns current character =
     find (\<lambda>child. cN (ns ! child) = character) (children (ns ! current))"

definition addChild :: "nat \<Rightarrow> char \<Rightarrow> 'a keyword_trie_scheme \<Rightarrow> nat \<times> 'a keyword_trie_scheme" where
  "addChild current character t =
     (case childWith (trieNodes t) current character of
        Some child \<Rightarrow> (child, t)
      | None \<Rightarrow>
          (let ns = trieNodes t @ [newNode (depth (trieNodes t ! current) + 1) character current];
               back = length ns - 1
           in (back, t\<lparr>trieNodes :=
                 ns[current := (ns ! current)\<lparr>children := children (ns ! current) @ [back]\<rparr>]\<rparr>)))"

text \<open>The loop of \<open>addString\<close> over the characters of the key.\<close>

fun addPath :: "bool \<Rightarrow> string \<Rightarrow> nat \<Rightarrow> 'a keyword_trie_scheme \<Rightarrow> nat \<times> 'a keyword_trie_scheme" where
  "addPath cs [] current t = (current, t)"
| "addPath cs (character # key) current t =
     (case addChild current (fold_case cs character) t of
        (current', t') \<Rightarrow> addPath cs key current' t')"

subsection \<open>Failure and output links\<close>

text \<open>The loop \<open>for (Node *failchild : temp->parent->failure->children)\<close>: it has no
  \<open>break\<close>, so the last child with the character wins.\<close>

definition failureScan :: "nat \<Rightarrow> Node list \<Rightarrow> Node list" where
  "failureScan temp ns =
     fold (\<lambda>failchild ns'. if cN (ns' ! failchild) = cN (ns' ! temp)
                            then ns'[temp := (ns' ! temp)\<lparr>failure := failchild\<rparr>] else ns')
       (children (ns ! failure (ns ! parent (ns ! temp)))) ns"

text \<open>The loop \<open>while (out != root) { if (out->id != -1) break; out = out->failure; }\<close>.\<close>

partial_function (option) outputWalk :: "Node list \<Rightarrow> nat \<Rightarrow> nat option" where
  "outputWalk ns out =
     (if out \<noteq> root
      then (if idN (ns ! out) \<noteq> - 1 then Some out else outputWalk ns (failure (ns ! out)))
      else Some out)"

declare outputWalk.simps [code]

text \<open>The body of the \<open>while (!q.empty())\<close> loop for the node \<open>temp\<close>, after its
  children were pushed.\<close>

definition processNode :: "nat \<Rightarrow> Node list \<Rightarrow> Node list option" where
  "processNode temp ns =
     (let ns1 = (if depth (ns ! failure (ns ! temp)) < depth (ns ! temp) - 1
                 then failureScan temp ns else ns)
      in case outputWalk ns1 (failure (ns1 ! temp)) of
           None \<Rightarrow> None
         | Some out \<Rightarrow> Some (ns1[temp := (ns1 ! temp)\<lparr>outputN := out\<rparr>]))"

text \<open>The breadth-first loop: the front is read, its children are pushed at the back,
  the front is processed and popped.\<close>

partial_function (option) bfs :: "nat list \<Rightarrow> Node list \<Rightarrow> Node list option" where
  "bfs q ns =
     (case q of
        [] \<Rightarrow> Some ns
      | temp # rest \<Rightarrow>
          (case processNode temp ns of
             None \<Rightarrow> None
           | Some ns' \<Rightarrow> bfs (rest @ children (ns ! temp)) ns'))"

declare bfs.simps [code]

definition addFailureLinks :: "'a keyword_trie_scheme \<Rightarrow> 'a keyword_trie_scheme option" where
  "addFailureLinks t =
     (case bfs [root] (trieNodes t) of
        None \<Rightarrow> None
      | Some ns \<Rightarrow> Some (t\<lparr>trieNodes := ns\<rparr>))"

text \<open>
  An operation returns \<open>None\<close> when it does not terminate, and otherwise the
  exception it throws (if any) with the state it leaves behind.
\<close>

definition addString :: "bool \<Rightarrow> string \<Rightarrow> bool \<Rightarrow> 'a keyword_trie_scheme \<Rightarrow> (error option \<times> 'a keyword_trie_scheme) option" where
  "addString cs key addFailure t =
     (if key = [] then Some (None, t)
      else case addPath cs key root t of
        (current, t1) \<Rightarrow>
          if idN (trieNodes t1 ! current) \<noteq> - 1 then Some (Some DuplicateKeywordError, t1)
          else
            (let ns = trieNodes t1;
                 t2 = t1\<lparr>trieNodes := ns[current := (ns ! current)\<lparr>idN := int (length (keywordsT t1))\<rparr>],
                         keywordsT := keywordsT t1 @ [Result_stub key (length (keywordsT t1))]\<rparr>
             in if addFailure
                then (case addFailureLinks t2 of None \<Rightarrow> None | Some t3 \<Rightarrow> Some (None, t3))
                else Some (None, t2)))"

text \<open>The loop of the two batch overloads: an exception leaves the loop, and
  \<open>addFailureLinks\<close> is then not run.\<close>

fun addAll :: "bool \<Rightarrow> string list \<Rightarrow> 'a keyword_trie_scheme \<Rightarrow> (error option \<times> 'a keyword_trie_scheme) option" where
  "addAll cs [] t = Some (None, t)"
| "addAll cs (key # keyList) t =
     (case addString cs key False t of
        None \<Rightarrow> None
      | Some (Some e, t') \<Rightarrow> Some (Some e, t')
      | Some (None, t') \<Rightarrow> addAll cs keyList t')"

definition addString_vector :: "bool \<Rightarrow> string list \<Rightarrow> 'a keyword_trie_scheme \<Rightarrow> (error option \<times> 'a keyword_trie_scheme) option" where
  "addString_vector cs keyList t =
     (case addAll cs keyList t of
        None \<Rightarrow> None
      | Some (Some e, t') \<Rightarrow> Some (Some e, t')
      | Some (None, t') \<Rightarrow>
          (case addFailureLinks t' of None \<Rightarrow> None | Some t'' \<Rightarrow> Some (None, t'')))"

text \<open>A \<open>std::set<std::string>\<close> is iterated in ascending order of \<open>operator<\<close>, the
  lexicographic order on the characters.\<close>

definition addString_set :: "bool \<Rightarrow> string set \<Rightarrow> 'a keyword_trie_scheme \<Rightarrow> (error option \<times> 'a keyword_trie_scheme) option" where
  "addString_set cs keyList t = addString_vector cs (sorted_list_of_set keyList) t"

subsection \<open>Scanning\<close>

text \<open>The \<open>while (temp != root)\<close> loop of \<open>traverseFail\<close>, with the scan of the
  root's children after it.\<close>

partial_function (option) traverseLoop :: "Node list \<Rightarrow> char \<Rightarrow> nat \<Rightarrow> nat option" where
  "traverseLoop ns character temp =
     (if temp \<noteq> root
      then (case childWith ns temp character of
              Some failchild \<Rightarrow> Some failchild
            | None \<Rightarrow> traverseLoop ns character (failure (ns ! temp)))
      else (case childWith ns root character of
              Some rootchild \<Rightarrow> Some rootchild
            | None \<Rightarrow> Some root))"

declare traverseLoop.simps [code]

definition traverseFail :: "Node list \<Rightarrow> nat \<Rightarrow> char \<Rightarrow> nat option" where
  "traverseFail ns current character = traverseLoop ns character (failure (ns ! current))"

definition findChild :: "Node list \<Rightarrow> nat \<Rightarrow> char \<Rightarrow> nat option" where
  "findChild ns current character =
     (case childWith ns current character of
        Some child \<Rightarrow> Some child
      | None \<Rightarrow> traverseFail ns current character)"

text \<open>\<open>keywords.at(id)\<close> with the \<open>int\<close> converted to \<open>std::size_t\<close>: a negative or
  too large index throws \<open>std::out_of_range\<close>.\<close>

definition keywords_at :: "Result list \<Rightarrow> int \<Rightarrow> error + Result" where
  "keywords_at ks i = (if 0 \<le> i \<and> i < int (length ks) then Inr (ks ! nat i) else Inl OutOfRange)"

text \<open>The loop over the output links at position \<open>i\<close>.\<close>

partial_function (option) outputLoop ::
    "'a keyword_trie_scheme \<Rightarrow> nat \<Rightarrow> nat \<Rightarrow> Result list \<Rightarrow> (error + Result list) option" where
  "outputLoop t i temp Results =
     (if temp \<noteq> root
      then (case keywords_at (keywordsT t) (idN (trieNodes t ! temp)) of
              Inl e \<Rightarrow> Some (Inl e)
            | Inr res \<Rightarrow> outputLoop t i (outputN (trieNodes t ! temp)) (Results @ [Result_at res i]))
      else Some (Inr Results))"

declare outputLoop.simps [code]

text \<open>The body of the \<open>for\<close> loop of \<open>parseText\<close> at position \<open>i\<close>, from the node
  \<open>current\<close>: the new node and the extended result list.\<close>

definition parseStep ::
    "bool \<Rightarrow> 'a keyword_trie_scheme \<Rightarrow> nat \<Rightarrow> char \<Rightarrow> nat \<Rightarrow> Result list \<Rightarrow> (error + nat \<times> Result list) option" where
  "parseStep cs t i character current Results =
     (case findChild (trieNodes t) current (fold_case cs character) of
        None \<Rightarrow> None
      | Some current' \<Rightarrow>
          (case (if idN (trieNodes t ! current') \<noteq> - 1
                 then (case keywords_at (keywordsT t) (idN (trieNodes t ! current')) of
                         Inl e \<Rightarrow> Inl e
                       | Inr res \<Rightarrow> Inr (Results @ [Result_at res i]))
                 else Inr Results) of
             Inl e \<Rightarrow> Some (Inl e)
           | Inr Results1 \<Rightarrow>
               (case outputLoop t i (outputN (trieNodes t ! current')) Results1 of
                  None \<Rightarrow> None
                | Some (Inl e) \<Rightarrow> Some (Inl e)
                | Some (Inr Results2) \<Rightarrow> Some (Inr (current', Results2)))))"

fun parseLoop ::
    "bool \<Rightarrow> 'a keyword_trie_scheme \<Rightarrow> nat \<Rightarrow> string \<Rightarrow> nat \<Rightarrow> Result list \<Rightarrow> (error + Result list) option" where
  "parseLoop cs t i [] current Results = Some (Inr Results)"
| "parseLoop cs t i (character # text) current Results =
     (case parseStep cs t i character current Results of
        None \<Rightarrow> None
      | Some (Inl e) \<Rightarrow> Some (Inl e)
      | Some (Inr (current', Results')) \<Rightarrow> parseLoop cs t (Suc i) text current' Results')"

definition parseText :: "bool \<Rightarrow> 'a keyword_trie_scheme \<Rightarrow> string \<Rightarrow> (error + Result list) option" where
  "parseText cs t text = (if text = [] then Some (Inr []) else parseLoop cs t 0 text root [])"

subsection \<open>Clients\<close>

text \<open>The insertions of one keyword after the other, as \<open>trie.addString(key)\<close> with
  the default \<open>addFailure = true\<close>; an exception ends the sequence.\<close>

fun addStrings :: "bool \<Rightarrow> string list \<Rightarrow> 'a keyword_trie_scheme \<Rightarrow> (error option \<times> 'a keyword_trie_scheme) option" where
  "addStrings cs [] t = Some (None, t)"
| "addStrings cs (key # keyList) t =
     (case addString cs key True t of
        None \<Rightarrow> None
      | Some (Some e, t') \<Rightarrow> Some (Some e, t')
      | Some (None, t') \<Rightarrow> addStrings cs keyList t')"

text \<open>The matches of a scan as (keyword, start, end), when the scan returns.\<close>

definition matches :: "(error + Result list) option \<Rightarrow> (string \<times> nat \<times> nat) list option" where
  "matches r = (case r of Some (Inr rs) \<Rightarrow> Some (map (\<lambda>x. (keyword x, start x, endR x)) rs) | _ \<Rightarrow> None)"

text \<open>The scan of a text by the trie that a construction returned normally.\<close>

definition scan_after :: "bool \<Rightarrow> (error option \<times> 'a keyword_trie_scheme) option \<Rightarrow> string \<Rightarrow> (string \<times> nat \<times> nat) list option" where
  "scan_after cs r text = (case r of Some (None, t) \<Rightarrow> matches (parseText cs t text) | _ \<Rightarrow> None)"

text \<open>A call of the public construction interface, and a sequence of such calls by a
  client that catches the exceptions and goes on; \<open>None\<close> when a call does not return.\<close>

datatype call = AddString string bool | AddVector "string list" | AddSet "string set"

fun call_on :: "bool \<Rightarrow> call \<Rightarrow> 'a keyword_trie_scheme \<Rightarrow> (error option \<times> 'a keyword_trie_scheme) option" where
  "call_on cs (AddString key addFailure) t = addString cs key addFailure t"
| "call_on cs (AddVector keyList) t = addString_vector cs keyList t"
| "call_on cs (AddSet keyList) t = addString_set cs keyList t"

fun calls :: "bool \<Rightarrow> call list \<Rightarrow> 'a keyword_trie_scheme \<Rightarrow> 'a keyword_trie_scheme option" where
  "calls cs [] t = Some t"
| "calls cs (x # xs) t =
     (case call_on cs x t of None \<Rightarrow> None | Some (e, t') \<Rightarrow> calls cs xs t')"

subsection \<open>Paths\<close>

text \<open>The string spelled from the root to a node, read off the \<open>parent\<close> pointers;
  the depth of the node says how many edges there are.\<close>

fun pathUp :: "nat \<Rightarrow> Node list \<Rightarrow> nat \<Rightarrow> string" where
  "pathUp 0 ns k = []"
| "pathUp (Suc m) ns k = pathUp m ns (parent (ns ! k)) @ [cN (ns ! k)]"

definition pathOf :: "Node list \<Rightarrow> nat \<Rightarrow> string" where
  "pathOf ns k = pathUp (nat (depth (ns ! k))) ns k"

text \<open>For every node, its path and the path of its failure link.\<close>

definition failure_paths :: "(error option \<times> 'a keyword_trie_scheme) option \<Rightarrow> (string \<times> string) list" where
  "failure_paths r =
     (case r of
        Some (None, t) \<Rightarrow>
          map (\<lambda>k. (pathOf (trieNodes t) k, pathOf (trieNodes t) (failure (trieNodes t ! k))))
            [0 ..< length (trieNodes t)]
      | _ \<Rightarrow> [])"

section \<open>The earlier \<open>keywordTrie::basic_trie\<close>, with a case sensitivity flag\<close>

text \<open>
  \<open>setCaseSensitivity\<close> exists only in the revisions where case sensitivity is a member
  of the trie. The model follows the revision with raw node pointers: its
  \<open>addFailureLinks\<close> is the one above, its \<open>addChild\<close> always creates a node, and its
  \<open>findChild\<close> compares the folded characters itself.
\<close>

record basic_trie = keyword_trie +
  caseSensitive :: bool

definition basic_trie_init :: basic_trie where
  "basic_trie_init = \<lparr>trieNodes = [rootNode], keywordsT = [], caseSensitive = True\<rparr>"

definition basic_addChild :: "nat \<Rightarrow> char \<Rightarrow> basic_trie \<Rightarrow> nat \<times> basic_trie" where
  "basic_addChild parent' character t =
     (let ns = trieNodes t @ [newNode (depth (trieNodes t ! parent') + 1) character parent'];
          back = length ns - 1
      in (back, t\<lparr>trieNodes :=
            ns[parent' := (ns ! parent')\<lparr>children := children (ns ! parent') @ [back]\<rparr>]\<rparr>))"

partial_function (option) basic_traverseLoop :: "Node list \<Rightarrow> char \<Rightarrow> nat \<Rightarrow> nat option" where
  "basic_traverseLoop ns character temp =
     (if temp \<noteq> root
      then (case childWith ns temp character of
              Some failchild \<Rightarrow> Some failchild
            | None \<Rightarrow> basic_traverseLoop ns character (failure (ns ! temp)))
      else Some temp)"

declare basic_traverseLoop.simps [code]

definition basic_traverseFail :: "Node list \<Rightarrow> nat \<Rightarrow> char \<Rightarrow> nat option" where
  "basic_traverseFail ns current character =
     basic_traverseLoop ns character (failure (ns ! current))"

definition basic_findChild :: "nat \<Rightarrow> char \<Rightarrow> bool \<Rightarrow> basic_trie \<Rightarrow> (nat \<times> basic_trie) option" where
  "basic_findChild current character addWord t =
     (case find (\<lambda>child. if caseSensitive t then cN (trieNodes t ! child) = character
                           else tolower (cN (trieNodes t ! child)) = tolower character)
             (children (trieNodes t ! current)) of
        Some child \<Rightarrow> Some (child, t)
      | None \<Rightarrow>
          if addWord
          then Some (if caseSensitive t then basic_addChild current character t
                     else basic_addChild current (tolower character) t)
          else (case basic_traverseFail (trieNodes t) current character of
                  None \<Rightarrow> None
                | Some n \<Rightarrow> Some (n, t)))"

fun basic_addPath :: "string \<Rightarrow> nat \<Rightarrow> basic_trie \<Rightarrow> (nat \<times> basic_trie) option" where
  "basic_addPath [] current t = Some (current, t)"
| "basic_addPath (character # key) current t =
     (case basic_findChild current character True t of
        None \<Rightarrow> None
      | Some (current', t') \<Rightarrow> basic_addPath key current' t')"

definition basic_addString :: "string \<Rightarrow> bool \<Rightarrow> basic_trie \<Rightarrow> (error option \<times> basic_trie) option" where
  "basic_addString key addFailure t =
     (if key = [] then Some (None, t)
      else case basic_addPath key root t of
        None \<Rightarrow> None
      | Some (current, t1) \<Rightarrow>
          if idN (trieNodes t1 ! current) \<noteq> - 1 then Some (Some DuplicateKeywordError, t1)
          else
            (let ns = trieNodes t1;
                 t2 = t1\<lparr>trieNodes := ns[current := (ns ! current)\<lparr>idN := int (length (keywordsT t1))\<rparr>],
                         keywordsT := keywordsT t1 @ [Result_stub key (length (keywordsT t1))]\<rparr>
             in if addFailure
                then (case addFailureLinks t2 of None \<Rightarrow> None | Some t3 \<Rightarrow> Some (None, t3))
                else Some (None, t2)))"

text \<open>\<open>setCaseSensitivity\<close>: the flag is stored, and the check that follows reads the
  stored flag.\<close>

definition setCaseSensitivity :: "bool \<Rightarrow> basic_trie \<Rightarrow> error option \<times> basic_trie" where
  "setCaseSensitivity flag t =
     (let t' = t\<lparr>caseSensitive := flag\<rparr>
      in if \<not> caseSensitive t' \<and> keywordsT t' \<noteq> [] then (Some InvalidStateError, t')
         else (None, t'))"

text \<open>A call of \<open>setCaseSensitivity\<close> on the trie that an insertion returned: whether
  the trie holds a keyword, and the exception of the call.\<close>

definition setCaseSensitivity_after :: "bool \<Rightarrow> (error option \<times> basic_trie) option \<Rightarrow> (bool \<times> error option) option" where
  "setCaseSensitivity_after flag r =
     (case r of
        Some (None, t) \<Rightarrow> Some (keywordsT t \<noteq> [], fst (setCaseSensitivity flag t))
      | _ \<Rightarrow> None)"

text \<open>The case-sensitive trie after \<open>addString("he")\<close>.\<close>

definition he_basic_trie :: basic_trie where
  "he_basic_trie = snd (the (basic_addString ''he'' True basic_trie_init))"

section \<open>Invariants of the construction\<close>

subsection \<open>The tree and its links\<close>

text \<open>
  The tree structure of the nodes: the root has depth 0; the children of a node are
  distinct later nodes whose parent is the node; every other node lies one level below
  its parent, an earlier node.
\<close>

definition shape :: "Node list \<Rightarrow> bool" where
  "shape ns \<longleftrightarrow>
     ns \<noteq> [] \<and> depth (ns ! 0) = 0 \<and>
     (\<forall>k<length ns. distinct (children (ns ! k)) \<and>
        (\<forall>c\<in>set (children (ns ! k)). k < c \<and> c < length ns \<and> parent (ns ! c) = k)) \<and>
     (\<forall>k<length ns. 0 < k \<longrightarrow>
        parent (ns ! k) < k \<and> depth (ns ! k) = depth (ns ! parent (ns ! k)) + 1)"

text \<open>The failure links, and likewise the output links, point to nodes of the trie, from
  the root to the root and from every other node to a node of smaller depth.\<close>

definition fail_ok :: "Node list \<Rightarrow> bool" where
  "fail_ok ns \<longleftrightarrow>
     failure (ns ! 0) = 0 \<and>
     (\<forall>k<length ns. failure (ns ! k) < length ns \<and>
        (0 < k \<longrightarrow> depth (ns ! failure (ns ! k)) < depth (ns ! k)))"

definition out_ok :: "Node list \<Rightarrow> bool" where
  "out_ok ns \<longleftrightarrow>
     outputN (ns ! 0) = 0 \<and>
     (\<forall>k<length ns. outputN (ns ! k) < length ns \<and>
        (0 < k \<longrightarrow> depth (ns ! outputN (ns ! k)) < depth (ns ! k)))"

definition nodes_ok :: "Node list \<Rightarrow> bool" where
  "nodes_ok ns \<longleftrightarrow> shape ns \<and> fail_ok ns \<and> out_ok ns"

text \<open>The nodes without their links: what the breadth-first pass leaves as it is.\<close>

definition skeleton :: "Node list \<Rightarrow> Node list" where
  "skeleton ns = map (\<lambda>n. n\<lparr>failure := 0, outputN := 0\<rparr>) ns"

subsection \<open>The three steps of the construction\<close>

text \<open>The node list after \<open>addChild\<close> has created a child of \<open>current\<close>.\<close>

definition grow :: "Node list \<Rightarrow> nat \<Rightarrow> char \<Rightarrow> Node list" where
  "grow ns current character =
     (ns @ [newNode (depth (ns ! current) + 1) character current])
       [current := (ns ! current)\<lparr>children := children (ns ! current) @ [length ns]\<rparr>]"

text \<open>The failure link that the loop body gives to \<open>temp\<close>: the last child of the failure
  link of the parent that carries the character of \<open>temp\<close>, when the depth test asks for
  the search and such a child exists.\<close>

definition failTarget :: "Node list \<Rightarrow> nat \<Rightarrow> nat option" where
  "failTarget ns temp =
     find (\<lambda>fc. cN (ns ! fc) = cN (ns ! temp)) (rev (children (ns ! failure (ns ! parent (ns ! temp)))))"

definition newFailure :: "Node list \<Rightarrow> nat \<Rightarrow> nat" where
  "newFailure ns temp =
     (if depth (ns ! failure (ns ! temp)) < depth (ns ! temp) - 1
      then (case failTarget ns temp of None \<Rightarrow> failure (ns ! temp) | Some fc \<Rightarrow> fc)
      else failure (ns ! temp))"

text \<open>A node is appended (\<open>Grow\<close>), a node receives the index of a new keyword
  (\<open>Mark\<close>), a node is processed by the breadth-first pass (\<open>Link\<close>).\<close>

inductive step :: "bool \<Rightarrow> 'a keyword_trie_scheme \<Rightarrow> 'a keyword_trie_scheme \<Rightarrow> bool" for cs :: bool where
  Grow: "current < length (trieNodes t) \<Longrightarrow> childWith (trieNodes t) current character = None \<Longrightarrow>
     step cs t (t\<lparr>trieNodes := grow (trieNodes t) current character\<rparr>)"
| Mark: "current < length (trieNodes t) \<Longrightarrow> 0 < current \<Longrightarrow> idN (trieNodes t ! current) = - 1 \<Longrightarrow>
     map (fold_case cs) key = pathOf (trieNodes t) current \<Longrightarrow> key \<noteq> [] \<Longrightarrow>
     step cs t (t\<lparr>trieNodes := (trieNodes t)[current := (trieNodes t ! current)\<lparr>idN := int (length (keywordsT t))\<rparr>],
                 keywordsT := keywordsT t @ [Result_stub key (length (keywordsT t))]\<rparr>)"
| Link: "temp < length (trieNodes t) \<Longrightarrow> processNode temp (trieNodes t) = Some ns' \<Longrightarrow>
     step cs t (t\<lparr>trieNodes := ns'\<rparr>)"

text \<open>The measure of the queue of the breadth-first pass: a node weighs more than all
  later nodes together.\<close>

definition weight :: "nat \<Rightarrow> nat list \<Rightarrow> nat" where
  "weight n q = sum_list (map (\<lambda>k. 2 ^ (n - k)) q)"

subsection \<open>Keywords and paths\<close>

text \<open>The keyword records for a list of keys, numbered from \<open>n\<close>.\<close>

definition stubs_from :: "nat \<Rightarrow> string list \<Rightarrow> Result list" where
  "stubs_from n keyList = map (\<lambda>(i, key). Result_stub key i) (enumerate n keyList)"

text \<open>The node reached from \<open>current\<close> along the existing edges of a key.\<close>

fun findPath :: "Node list \<Rightarrow> nat \<Rightarrow> string \<Rightarrow> nat option" where
  "findPath ns current [] = Some current"
| "findPath ns current (character # key) =
     (case childWith ns current character of
        None \<Rightarrow> None
      | Some child \<Rightarrow> findPath ns child key)"

text \<open>A keyword index of a node names a keyword whose folded text is the path of the
  node.\<close>

definition ids_ok :: "bool \<Rightarrow> 'a keyword_trie_scheme \<Rightarrow> bool" where
  "ids_ok cs t \<longleftrightarrow>
     (\<forall>k<length (trieNodes t). idN (trieNodes t ! k) \<noteq> - 1 \<longrightarrow>
        0 \<le> idN (trieNodes t ! k) \<and> nat (idN (trieNodes t ! k)) < length (keywordsT t) \<and>
        map (fold_case cs) (keyword (keywordsT t ! nat (idN (trieNodes t ! k)))) = pathOf (trieNodes t) k)"

text \<open>The paths of the failure link and of the output link of a node are suffixes of
  the path of the node, and an output link points to the root or to a node with a
  keyword index.\<close>

definition suffix_ok :: "Node list \<Rightarrow> bool" where
  "suffix_ok ns \<longleftrightarrow>
     (\<forall>k<length ns. suffix (pathOf ns (failure (ns ! k))) (pathOf ns k) \<and>
        suffix (pathOf ns (outputN (ns ! k))) (pathOf ns k) \<and>
        (outputN (ns ! k) = 0 \<or> idN (ns ! outputN (ns ! k)) \<noteq> - 1))"

definition trie_ok :: "bool \<Rightarrow> 'a keyword_trie_scheme \<Rightarrow> bool" where
  "trie_ok cs t \<longleftrightarrow> nodes_ok (trieNodes t) \<and> ids_ok cs t \<and> suffix_ok (trieNodes t)"

text \<open>A match record of the scan of \<open>whole\<close>: it ends inside the text, its keyword is
  in the keyword list and, folded, a suffix of the folded text up to the end offset,
  and its start is computed as by \<open>Result(res, endPos)\<close>.\<close>

definition match_ok :: "bool \<Rightarrow> Result list \<Rightarrow> string \<Rightarrow> Result \<Rightarrow> bool" where
  "match_ok cs ks whole r \<longleftrightarrow>
     endR r < length whole \<and> keyword r \<in> keyword ` set ks \<and>
     suffix (map (fold_case cs) (keyword r)) (map (fold_case cs) (take (Suc (endR r)) whole)) \<and>
     int (start r) = (int (endR r) - int (length (keyword r)) + 1) mod 2 ^ 64"

subsection \<open>Fixed points of the breadth-first pass\<close>

text \<open>A node is settled when the loop body would write back the links it has.\<close>

definition settled :: "Node list \<Rightarrow> nat \<Rightarrow> bool" where
  "settled ns k \<longleftrightarrow>
     newFailure ns k = failure (ns ! k) \<and> outputWalk ns (failure (ns ! k)) = Some (outputN (ns ! k))"

text \<open>The queue holds the nodes in the order of their depths, and of two levels at
  most.\<close>

definition level_q :: "Node list \<Rightarrow> nat list \<Rightarrow> bool" where
  "level_q ns q \<longleftrightarrow>
     sorted (map (\<lambda>k. depth (ns ! k)) q) \<and>
     (\<forall>i\<in>set q. \<forall>j\<in>set q. depth (ns ! j) \<le> depth (ns ! i) + 1)"

text \<open>The nodes below a set of nodes.\<close>

inductive_set desc :: "Node list \<Rightarrow> nat set \<Rightarrow> nat set" for ns :: "Node list" and S :: "nat set" where
  base: "k \<in> S \<Longrightarrow> k \<in> desc ns S"
| child: "k \<in> desc ns S \<Longrightarrow> c \<in> set (children (ns ! k)) \<Longrightarrow> c \<in> desc ns S"

subsection \<open>Example tries\<close>

definition batch_of_three :: keyword_trie where
  "batch_of_three = snd (the (addString_set True {''we'', ''she'', ''he''} keyword_trie_init))"

definition her_trie :: keyword_trie where
  "her_trie = snd (the (addString False ''Her'' True keyword_trie_init))"

definition her_she_trie :: keyword_trie where
  "her_she_trie = the (calls False [AddVector [''she'', ''he'']] her_trie)"

definition ushers_trie :: keyword_trie where
  "ushers_trie = the (calls True [AddSet {''hers'', ''his'', ''she'', ''he'', ''her''}] keyword_trie_init)"

definition ushers_results :: "Result list" where
  "ushers_results = (case parseText True ushers_trie ''ushers'' of Some (Inr rs) \<Rightarrow> rs | _ \<Rightarrow> [])"

definition unlinked_trie :: keyword_trie where
  "unlinked_trie = the (calls True [AddString ''hers'' False, AddString ''she'' False, AddString ''he'' False]
     keyword_trie_init)"

definition linked_trie :: keyword_trie where
  "linked_trie = the (addFailureLinks unlinked_trie)"

section \<open>Properties\<close>

subsection \<open>The scenario of the README\<close>

text \<open>
  C3. The keywords "hers", "his", "she", "he", "her" are inserted, one call of
  \<open>addString\<close> each in this order or all at once as a \<open>std::set\<close>; the scan of "ushers"
  then returns exactly "she" from 1 to 3, "he" from 2 to 3, "her" from 2 to 4 and "hers"
  from 2 to 5, in this order.
\<close>

theorem ushers_scenario:
  "scan_after True (addStrings True [''hers'', ''his'', ''she'', ''he'', ''her''] keyword_trie_init) ''ushers''
     = Some [(''she'', 1, 3), (''he'', 2, 3), (''her'', 2, 4), (''hers'', 2, 5)]
   \<and> scan_after True (addString_set True {''hers'', ''his'', ''she'', ''he'', ''her''} keyword_trie_init) ''ushers''
     = Some [(''she'', 1, 3), (''he'', 2, 3), (''her'', 2, 4), (''hers'', 2, 5)]"
  by code_simp

subsection \<open>Failure links that are not the longest suffix\<close>

text \<open>
  C1 does not hold of the code. After the keywords "aab" and "b" are inserted by the
  \<open>std::set\<close> overload, which builds the links, or one by one, the scan of "aab" returns
  the match of "aab" only: the keyword "b", a suffix of the text read at position 2, is
  not reported.
\<close>

theorem scan_misses_suffix_keyword:
  "scan_after True (addString_set True {''aab'', ''b''} keyword_trie_init) ''aab''
     = Some [(''aab'', 0, 2)]
   \<and> scan_after True (addStrings True [''b'', ''aab''] keyword_trie_init) ''aab''
     = Some [(''aab'', 0, 2)]"
  by code_simp

text \<open>
  C2 does not hold of the code. In the same trie the failure link of the node with the
  path "aab" is the root, although the node with the path "b" exists: the construction
  looks among the children of the failure link of the parent only, and does not follow
  the failure links further.
\<close>

theorem failure_link_not_longest_suffix:
  "failure_paths (addString_set True {''aab'', ''b''} keyword_trie_init)
     = [([], []), (''a'', []), (''aa'', ''a''), (''aab'', []), (''b'', [])]"
  by code_simp

subsection \<open>Changing the case sensitivity\<close>

text \<open>
  C6 does not hold as it stands: on a trie that holds the keyword "he", \<open>setCaseSensitivity(true)\<close>
  returns without an exception.
\<close>

theorem setCaseSensitivity_true_returns:
  "setCaseSensitivity_after True (basic_addString ''he'' True basic_trie_init) = Some (True, None)"
  by code_simp

text \<open>
  C6, as the code has it by its guard. Before any keyword has been inserted,
  \<open>setCaseSensitivity(flag)\<close> returns and stores the flag. Once a keyword exists, every
  call with \<open>flag = false\<close> throws, and a call with \<open>flag = true\<close> on a case-sensitive
  trie, which changes nothing, returns with the trie as it was. No call changes the
  nodes or the keywords. (Nothing is said here about \<open>flag = true\<close> on a trie that is
  not case sensitive and holds keywords, nor about the flag after a call that threw.)
\<close>

theorem setCaseSensitivity_guard:
  "(keywordsT t = [] \<longrightarrow> setCaseSensitivity flag t = (None, t\<lparr>caseSensitive := flag\<rparr>))
   \<and> (keywordsT t \<noteq> [] \<longrightarrow> fst (setCaseSensitivity False t) = Some InvalidStateError)
   \<and> (keywordsT t \<noteq> [] \<and> caseSensitive t \<longrightarrow> setCaseSensitivity True t = (None, t))
   \<and> trieNodes (snd (setCaseSensitivity flag t)) = trieNodes t
   \<and> keywordsT (snd (setCaseSensitivity flag t)) = keywordsT t"
  by (simp add: setCaseSensitivity_def Let_def)

theorem setCaseSensitivity_guard_witness:
  "basic_addString ''he'' True basic_trie_init = Some (None, he_basic_trie)
   \<and> keywordsT he_basic_trie \<noteq> [] \<and> caseSensitive he_basic_trie
   \<and> fst (setCaseSensitivity False he_basic_trie) = Some InvalidStateError
   \<and> setCaseSensitivity True he_basic_trie = (None, he_basic_trie)
   \<and> setCaseSensitivity False basic_trie_init = (None, basic_trie_init\<lparr>caseSensitive := False\<rparr>)"
proof -
  have a: "basic_addString ''he'' True basic_trie_init = Some (None, he_basic_trie)"
    unfolding he_basic_trie_def by code_simp
  have k: "keywordsT he_basic_trie \<noteq> []" unfolding he_basic_trie_def by code_simp
  have c: "caseSensitive he_basic_trie" unfolding he_basic_trie_def by code_simp
  have e: "keywordsT basic_trie_init = []" by (simp add: basic_trie_init_def)
  from setCaseSensitivity_guard [where t = he_basic_trie] k c
  have 1: "fst (setCaseSensitivity False he_basic_trie) = Some InvalidStateError"
    and 2: "setCaseSensitivity True he_basic_trie = (None, he_basic_trie)" by blast+
  from setCaseSensitivity_guard [where t = basic_trie_init and flag = False] e
  have 3: "setCaseSensitivity False basic_trie_init = (None, basic_trie_init\<lparr>caseSensitive := False\<rparr>)"
    by blast
  from a k c 1 2 3 show ?thesis by blast
qed

section \<open>The construction keeps the links well-formed\<close>

lemma skeleton_length: "skeleton ns' = skeleton ns \<Longrightarrow> length ns' = length ns"
  unfolding skeleton_def by (rule map_eq_imp_length_eq)

lemma skeleton_nth:
  assumes "skeleton ns' = skeleton ns" "k < length ns"
  shows "children (ns' ! k) = children (ns ! k)" "depth (ns' ! k) = depth (ns ! k)"
    "parent (ns' ! k) = parent (ns ! k)" "cN (ns' ! k) = cN (ns ! k)" "idN (ns' ! k) = idN (ns ! k)"
proof -
  have l: "length ns' = length ns" using assms(1) by (rule skeleton_length)
  have "skeleton ns' ! k = skeleton ns ! k" using assms(1) by simp
  then have e: "(ns' ! k)\<lparr>failure := 0, outputN := 0\<rparr> = (ns ! k)\<lparr>failure := 0, outputN := 0\<rparr>"
    using assms(2) l by (simp add: skeleton_def)
  from arg_cong [OF e, of children] show "children (ns' ! k) = children (ns ! k)" by simp
  from arg_cong [OF e, of depth] show "depth (ns' ! k) = depth (ns ! k)" by simp
  from arg_cong [OF e, of parent] show "parent (ns' ! k) = parent (ns ! k)" by simp
  from arg_cong [OF e, of cN] show "cN (ns' ! k) = cN (ns ! k)" by simp
  from arg_cong [OF e, of idN] show "idN (ns' ! k) = idN (ns ! k)" by simp
qed

lemma shapeD:
  assumes "shape ns"
  shows "0 < length ns" "depth (ns ! 0) = 0"
    "\<And>k. k < length ns \<Longrightarrow> distinct (children (ns ! k))"
    "\<And>k c. k < length ns \<Longrightarrow> c \<in> set (children (ns ! k)) \<Longrightarrow> k < c \<and> c < length ns \<and> parent (ns ! c) = k"
    "\<And>k. k < length ns \<Longrightarrow> 0 < k \<Longrightarrow> parent (ns ! k) < k"
    "\<And>k. k < length ns \<Longrightarrow> 0 < k \<Longrightarrow> depth (ns ! k) = depth (ns ! parent (ns ! k)) + 1"
  using assms unfolding shape_def by blast+

lemma shapeI:
  assumes "0 < length ns" "depth (ns ! 0) = 0"
    "\<And>k. k < length ns \<Longrightarrow> distinct (children (ns ! k))"
    "\<And>k c. k < length ns \<Longrightarrow> c \<in> set (children (ns ! k)) \<Longrightarrow> k < c \<and> c < length ns \<and> parent (ns ! c) = k"
    "\<And>k. k < length ns \<Longrightarrow> 0 < k \<Longrightarrow> parent (ns ! k) < k"
    "\<And>k. k < length ns \<Longrightarrow> 0 < k \<Longrightarrow> depth (ns ! k) = depth (ns ! parent (ns ! k)) + 1"
  shows "shape ns"
  unfolding shape_def using assms by blast

lemma shape_cong:
  assumes l: "length ns' = length ns"
    and f: "\<And>k. k < length ns \<Longrightarrow> children (ns' ! k) = children (ns ! k)
        \<and> depth (ns' ! k) = depth (ns ! k) \<and> parent (ns' ! k) = parent (ns ! k)"
    and s: "shape ns"
  shows "shape ns'"
proof (rule shapeI)
  note d = shapeD [OF s]
  show "0 < length ns'" using d(1) l by simp
  show "depth (ns' ! 0) = 0" using d(2) f [OF d(1)] by simp
  show "distinct (children (ns' ! k))" if "k < length ns'" for k
    using that l d(3) [of k] f [of k] by simp
  show "k < c \<and> c < length ns' \<and> parent (ns' ! c) = k"
    if "k < length ns'" "c \<in> set (children (ns' ! k))" for k c
  proof -
    from that l have k: "k < length ns" by simp
    with that(2) f [OF k] have "c \<in> set (children (ns ! k))" by simp
    from d(4) [OF k this] have c: "k < c" "c < length ns" "parent (ns ! c) = k" by simp_all
    with f [OF c(2)] l show ?thesis by simp
  qed
  show "parent (ns' ! k) < k" if "k < length ns'" "0 < k" for k
    using that l d(5) [of k] f [of k] by simp
  show "depth (ns' ! k) = depth (ns' ! parent (ns' ! k)) + 1" if "k < length ns'" "0 < k" for k
  proof -
    from that l have k: "k < length ns" by simp
    from d(5) [OF k that(2)] k have pk: "parent (ns ! k) < length ns" by simp
    show ?thesis using d(6) [OF k that(2)] f [OF k] f [OF pk] by simp
  qed
qed

lemma skeleton_shape:
  assumes e: "skeleton ns' = skeleton ns" and s: "shape ns"
  shows "shape ns'"
  by (rule shape_cong [OF skeleton_length [OF e] _ s]) (simp add: skeleton_nth [OF e])

lemma skeleton_update_failure [simp]:
  "skeleton (ns[k := (ns ! k)\<lparr>failure := f\<rparr>]) = skeleton ns"
  unfolding skeleton_def
  by (cases "k < length ns") (simp_all add: map_update list_update_same_conv list_update_beyond)

lemma skeleton_update_output [simp]:
  "skeleton (ns[k := (ns ! k)\<lparr>outputN := f\<rparr>]) = skeleton ns"
  unfolding skeleton_def
  by (cases "k < length ns") (simp_all add: map_update list_update_same_conv list_update_beyond)

lemma shape_depth_nonneg: "shape ns \<Longrightarrow> k < length ns \<Longrightarrow> 0 \<le> depth (ns ! k)"
proof (induction k rule: less_induct)
  case (less k)
  note d = shapeD [OF less.prems(1)]
  show ?case
  proof (cases "k = 0")
    case True
    with d(2) show ?thesis by simp
  next
    case False
    then have k0: "0 < k" by simp
    note p = d(5) [OF less.prems(2) k0] d(6) [OF less.prems(2) k0]
    from p(1) less.prems(2) have "parent (ns ! k) < length ns" by simp
    from less.IH [OF p(1) less.prems(1) this] p(2) show ?thesis by simp
  qed
qed

lemma shape_child:
  assumes "shape ns" "k < length ns" "c \<in> set (children (ns ! k))"
  shows "k < c" "c < length ns" "parent (ns ! c) = k" "depth (ns ! c) = depth (ns ! k) + 1"
proof -
  note d = shapeD [OF assms(1)]
  from d(4) [OF assms(2,3)] show a: "k < c" "c < length ns" "parent (ns ! c) = k" by simp_all
  from a have "0 < c" by simp
  from d(6) [OF a(2) this] a(3) show "depth (ns ! c) = depth (ns ! k) + 1" by simp
qed

lemma shape_depth_pos:
  assumes "shape ns" "k < length ns" "0 < k"
  shows "0 < depth (ns ! k)"
proof -
  note d = shapeD [OF assms(1)]
  note p = d(5) [OF assms(2,3)] d(6) [OF assms(2,3)]
  from p(1) assms(2) have "parent (ns ! k) < length ns" by simp
  from shape_depth_nonneg [OF assms(1) this] p(2) show ?thesis by simp
qed

lemma fail_okD:
  assumes "fail_ok ns"
  shows "failure (ns ! 0) = 0"
    "\<And>k. k < length ns \<Longrightarrow> failure (ns ! k) < length ns"
    "\<And>k. k < length ns \<Longrightarrow> 0 < k \<Longrightarrow> depth (ns ! failure (ns ! k)) < depth (ns ! k)"
  using assms unfolding fail_ok_def by blast+

lemma out_okD:
  assumes "out_ok ns"
  shows "outputN (ns ! 0) = 0"
    "\<And>k. k < length ns \<Longrightarrow> outputN (ns ! k) < length ns"
    "\<And>k. k < length ns \<Longrightarrow> 0 < k \<Longrightarrow> depth (ns ! outputN (ns ! k)) < depth (ns ! k)"
  using assms unfolding out_ok_def by blast+

lemma childWith_Some:
  assumes "childWith ns current character = Some child"
  shows "child \<in> set (children (ns ! current))" "cN (ns ! child) = character"
  using assms unfolding childWith_def by (induction "children (ns ! current)") (auto simp: find_Some_iff)

lemma addChild_found:
  "childWith (trieNodes t) current character = Some child \<Longrightarrow> addChild current character t = (child, t)"
  by (simp add: addChild_def)

lemma addChild_new:
  assumes "childWith (trieNodes t) current character = None" "current < length (trieNodes t)"
  shows "addChild current character t
    = (length (trieNodes t), t\<lparr>trieNodes := grow (trieNodes t) current character\<rparr>)"
  using assms by (simp add: addChild_def grow_def Let_def nth_append)

lemma grow_length [simp]: "length (grow ns current character) = Suc (length ns)"
  by (simp add: grow_def)

lemma grow_nth_old:
  "current < length ns \<Longrightarrow> k < length ns \<Longrightarrow> k \<noteq> current \<Longrightarrow> grow ns current character ! k = ns ! k"
  by (simp add: grow_def nth_append)

lemma grow_nth_current:
  "current < length ns \<Longrightarrow>
   grow ns current character ! current = (ns ! current)\<lparr>children := children (ns ! current) @ [length ns]\<rparr>"
  by (simp add: grow_def)

lemma grow_nth_new:
  "current < length ns \<Longrightarrow>
   grow ns current character ! length ns = newNode (depth (ns ! current) + 1) character current"
  by (simp add: grow_def nth_append)

lemma grow_fields_old:
  assumes "current < length ns" "k < length ns"
  shows "depth (grow ns current character ! k) = depth (ns ! k)"
    "parent (grow ns current character ! k) = parent (ns ! k)"
    "cN (grow ns current character ! k) = cN (ns ! k)"
    "idN (grow ns current character ! k) = idN (ns ! k)"
    "failure (grow ns current character ! k) = failure (ns ! k)"
    "outputN (grow ns current character ! k) = outputN (ns ! k)"
    "children (grow ns current character ! k)
       = (if k = current then children (ns ! k) @ [length ns] else children (ns ! k))"
  using assms by (cases "k = current"; simp add: grow_nth_old grow_nth_current)+

lemma grow_fields_new:
  assumes "current < length ns"
  shows "depth (grow ns current character ! length ns) = depth (ns ! current) + 1"
    "parent (grow ns current character ! length ns) = current"
    "cN (grow ns current character ! length ns) = character"
    "idN (grow ns current character ! length ns) = - 1"
    "failure (grow ns current character ! length ns) = 0"
    "outputN (grow ns current character ! length ns) = 0"
    "children (grow ns current character ! length ns) = []"
  using assms by (simp_all add: grow_nth_new newNode_def root_def)

lemma grow_shape:
  assumes s: "shape ns" and c: "current < length ns"
  shows "shape (grow ns current character)"
proof (rule shapeI)
  note d = shapeD [OF s]
  note o = grow_fields_old [OF c, of _ character]
  note n = grow_fields_new [OF c, of character]
  let ?g = "grow ns current character"
  show "0 < length ?g" by simp
  show "depth (?g ! 0) = 0" using o(1) [OF d(1)] d(2) by simp
  show "distinct (children (?g ! k))" if "k < length ?g" for k
  proof (cases "k < length ns")
    case True
    have "length ns \<notin> set (children (ns ! k))" using d(4) [OF True] by blast
    with d(3) [OF True] o(7) [OF True] show ?thesis by auto
  next
    case False
    with that have "k = length ns" by simp
    with n(7) show ?thesis by simp
  qed
  show "k < c \<and> c < length ?g \<and> parent (?g ! c) = k"
    if "k < length ?g" "c \<in> set (children (?g ! k))" for k c
  proof (cases "k < length ns")
    case True
    show ?thesis
    proof (cases "c \<in> set (children (ns ! k))")
      case True
      from d(4) [OF \<open>k < length ns\<close> True] have "k < c" "c < length ns" "parent (ns ! c) = k" by simp_all
      with o(2) [of c] show ?thesis by simp
    next
      case False
      with that(2) o(7) [OF True] have "k = current" "c = length ns"
        by (auto split: if_splits)
      with n(2) c show ?thesis by simp
    qed
  next
    case False
    with that(1) have "k = length ns" by simp
    with that(2) n(7) show ?thesis by simp
  qed
  show "parent (?g ! k) < k" if "k < length ?g" "0 < k" for k
  proof (cases "k < length ns")
    case True
    with d(5) [OF True that(2)] o(2) [OF True] show ?thesis by simp
  next
    case False
    with that(1) have "k = length ns" by simp
    with n(2) c show ?thesis by simp
  qed
  show "depth (?g ! k) = depth (?g ! parent (?g ! k)) + 1" if "k < length ?g" "0 < k" for k
  proof (cases "k < length ns")
    case True
    from d(5) [OF True that(2)] True have "parent (ns ! k) < length ns" by simp
    with d(6) [OF True that(2)] o(1) [OF True] o(2) [OF True] o(1) [of "parent (ns ! k)"]
    show ?thesis by simp
  next
    case False
    with that(1) have "k = length ns" by simp
    with n(1) n(2) o(1) [OF c] show ?thesis by simp
  qed
qed

lemma fail_okI:
  assumes "failure (ns ! 0) = 0"
    "\<And>k. k < length ns \<Longrightarrow> failure (ns ! k) < length ns"
    "\<And>k. k < length ns \<Longrightarrow> 0 < k \<Longrightarrow> depth (ns ! failure (ns ! k)) < depth (ns ! k)"
  shows "fail_ok ns"
  unfolding fail_ok_def using assms by blast

lemma out_okI:
  assumes "outputN (ns ! 0) = 0"
    "\<And>k. k < length ns \<Longrightarrow> outputN (ns ! k) < length ns"
    "\<And>k. k < length ns \<Longrightarrow> 0 < k \<Longrightarrow> depth (ns ! outputN (ns ! k)) < depth (ns ! k)"
  shows "out_ok ns"
  unfolding out_ok_def using assms by blast

lemma grow_fail_ok:
  assumes s: "shape ns" and f: "fail_ok ns" and c: "current < length ns"
  shows "fail_ok (grow ns current character)"
proof (rule fail_okI)
  note d = shapeD [OF s]
  note fd = fail_okD [OF f]
  note o = grow_fields_old [OF c, of _ character]
  note n = grow_fields_new [OF c, of character]
  let ?g = "grow ns current character"
  show "failure (?g ! 0) = 0" using o(5) [OF d(1)] fd(1) by simp
  show "failure (?g ! k) < length ?g" if "k < length ?g" for k
  proof (cases "k < length ns")
    case True
    with fd(2) [OF True] o(5) [OF True] show ?thesis by simp
  next
    case False
    with that have "k = length ns" by simp
    with n(5) show ?thesis by simp
  qed
  show "depth (?g ! failure (?g ! k)) < depth (?g ! k)" if "k < length ?g" "0 < k" for k
  proof (cases "k < length ns")
    case True
    with fd(3) [OF True that(2)] fd(2) [OF True] o(5) [OF True] o(1) [OF True]
      o(1) [of "failure (ns ! k)"]
    show ?thesis by simp
  next
    case False
    with that have "k = length ns" by simp
    with n(5) n(1) o(1) [OF d(1)] d(2) shape_depth_nonneg [OF s c] show ?thesis by simp
  qed
qed

lemma grow_out_ok:
  assumes s: "shape ns" and f: "out_ok ns" and c: "current < length ns"
  shows "out_ok (grow ns current character)"
proof (rule out_okI)
  note d = shapeD [OF s]
  note fd = out_okD [OF f]
  note o = grow_fields_old [OF c, of _ character]
  note n = grow_fields_new [OF c, of character]
  let ?g = "grow ns current character"
  show "outputN (?g ! 0) = 0" using o(6) [OF d(1)] fd(1) by simp
  show "outputN (?g ! k) < length ?g" if "k < length ?g" for k
  proof (cases "k < length ns")
    case True
    with fd(2) [OF True] o(6) [OF True] show ?thesis by simp
  next
    case False
    with that have "k = length ns" by simp
    with n(6) show ?thesis by simp
  qed
  show "depth (?g ! outputN (?g ! k)) < depth (?g ! k)" if "k < length ?g" "0 < k" for k
  proof (cases "k < length ns")
    case True
    with fd(3) [OF True that(2)] fd(2) [OF True] o(6) [OF True] o(1) [OF True]
      o(1) [of "outputN (ns ! k)"]
    show ?thesis by simp
  next
    case False
    with that have "k = length ns" by simp
    with n(6) n(1) o(1) [OF d(1)] d(2) shape_depth_nonneg [OF s c] show ?thesis by simp
  qed
qed

lemma grow_nodes_ok:
  "nodes_ok ns \<Longrightarrow> current < length ns \<Longrightarrow> nodes_ok (grow ns current character)"
  unfolding nodes_ok_def by (simp add: grow_shape grow_fail_ok grow_out_ok)

lemma addChild_ok:
  assumes i: "nodes_ok (trieNodes t)" and c: "current < length (trieNodes t)"
    and a: "addChild current character t = (child, t')"
  shows "nodes_ok (trieNodes t')" "child < length (trieNodes t')" "current < child"
    "keywordsT t' = keywordsT t" "length (trieNodes t) \<le> length (trieNodes t')"
    "keyword_trie.more t' = keyword_trie.more t"
proof -
  from i have s: "shape (trieNodes t)" by (simp add: nodes_ok_def)
  have "nodes_ok (trieNodes t') \<and> child < length (trieNodes t') \<and> current < child \<and>
    keywordsT t' = keywordsT t \<and> length (trieNodes t) \<le> length (trieNodes t') \<and>
    keyword_trie.more t' = keyword_trie.more t"
  proof (cases "childWith (trieNodes t) current character")
    case (Some ch)
    with a addChild_found [OF Some] have e: "ch = child" "t' = t" by simp_all
    from childWith_Some(1) [OF Some] shape_child [OF s c] e i show ?thesis by simp
  next
    case None
    with a addChild_new [OF None c] have e: "child = length (trieNodes t)"
      "t' = t\<lparr>trieNodes := grow (trieNodes t) current character\<rparr>" by simp_all
    with grow_nodes_ok [OF i c] c show ?thesis by simp
  qed
  then show "nodes_ok (trieNodes t')" "child < length (trieNodes t')" "current < child"
    "keywordsT t' = keywordsT t" "length (trieNodes t) \<le> length (trieNodes t')"
    "keyword_trie.more t' = keyword_trie.more t" by simp_all
qed

lemma addPath_ok:
  assumes "nodes_ok (trieNodes t)" "current < length (trieNodes t)"
    "addPath cs key current t = (node, t')"
  shows "nodes_ok (trieNodes t') \<and> node < length (trieNodes t') \<and> current \<le> node \<and>
    (key \<noteq> [] \<longrightarrow> current < node) \<and>
    keywordsT t' = keywordsT t \<and> length (trieNodes t) \<le> length (trieNodes t') \<and>
    keyword_trie.more t' = keyword_trie.more t"
  using assms
proof (induction key arbitrary: current t)
  case Nil
  then show ?case by simp
next
  case (Cons character key)
  obtain child t1 where a: "addChild current (fold_case cs character) t = (child, t1)"
    by (cases "addChild current (fold_case cs character) t") auto
  note ok = addChild_ok [OF Cons.prems(1,2) a]
  from Cons.prems(3) a have "addPath cs key child t1 = (node, t')" by simp
  from Cons.IH [OF ok(1) ok(2) this] ok show ?case by simp
qed

subsection \<open>The scan for the failure link\<close>

lemma set_failure_cN [simp]: "cN ((ns[k := (ns ! k)\<lparr>failure := f\<rparr>]) ! j) = cN (ns ! j)"
  by (cases "k < length ns"; cases "j = k") (simp_all add: list_update_beyond)

lemma set_failure_twice [simp]:
  "ns[k := ((ns[k := (ns ! k)\<lparr>failure := f\<rparr>]) ! k)\<lparr>failure := g\<rparr>]
     = ns[k := (ns ! k)\<lparr>failure := g\<rparr>]"
  by (cases "k < length ns") (simp_all add: list_update_beyond)

lemma set_failure_output [simp]:
  "ns[k := ((ns[k := (ns ! k)\<lparr>failure := f\<rparr>]) ! k)\<lparr>outputN := g\<rparr>]
     = ns[k := (ns ! k)\<lparr>failure := f, outputN := g\<rparr>]"
  by (cases "k < length ns") (simp_all add: list_update_beyond)

lemma find_SomeD: "find P xs = Some x \<Longrightarrow> x \<in> set xs \<and> P x"
  by (induction xs) (auto split: if_splits)

lemma failure_fold:
  "fold (\<lambda>failchild ns'. if cN (ns' ! failchild) = cN (ns' ! temp)
                            then ns'[temp := (ns' ! temp)\<lparr>failure := failchild\<rparr>] else ns') xs ns
   = (case find (\<lambda>fc. cN (ns ! fc) = cN (ns ! temp)) (rev xs) of
        None \<Rightarrow> ns
      | Some fc \<Rightarrow> ns[temp := (ns ! temp)\<lparr>failure := fc\<rparr>])"
proof (induction xs rule: rev_induct)
  case Nil
  show ?case by simp
next
  case (snoc x xs)
  show ?case
    by (cases "find (\<lambda>fc. cN (ns ! fc) = cN (ns ! temp)) (rev xs)") (simp_all add: snoc.IH)
qed

lemma failureScan_eq:
  "failureScan temp ns
     = (case failTarget ns temp of None \<Rightarrow> ns | Some fc \<Rightarrow> ns[temp := (ns ! temp)\<lparr>failure := fc\<rparr>])"
  unfolding failureScan_def failTarget_def by (rule failure_fold)

lemma set_failure_same [simp]: "ns[k := (ns ! k)\<lparr>failure := failure (ns ! k)\<rparr>] = ns"
  by (cases "k < length ns") (simp_all add: list_update_beyond)

lemma guarded_failureScan:
  "(if depth (ns ! failure (ns ! temp)) < depth (ns ! temp) - 1 then failureScan temp ns else ns)
     = ns[temp := (ns ! temp)\<lparr>failure := newFailure ns temp\<rparr>]"
  by (simp add: failureScan_eq newFailure_def split: option.split)

lemma set_failure_nth:
  "k < length ns \<Longrightarrow> ns[k := (ns ! k)\<lparr>failure := f\<rparr>] ! k = (ns ! k)\<lparr>failure := f\<rparr>"
  by simp

lemma processNode_eq:
  assumes "temp < length ns"
  shows "processNode temp ns
    = (case outputWalk (ns[temp := (ns ! temp)\<lparr>failure := newFailure ns temp\<rparr>]) (newFailure ns temp) of
         None \<Rightarrow> None
       | Some out \<Rightarrow> Some (ns[temp := (ns ! temp)\<lparr>failure := newFailure ns temp, outputN := out\<rparr>]))"
  unfolding processNode_def guarded_failureScan Let_def using assms
  by (simp split: option.split)

lemma failTarget_Some:
  assumes "failTarget ns temp = Some fc"
  shows "fc \<in> set (children (ns ! failure (ns ! parent (ns ! temp))))" "cN (ns ! fc) = cN (ns ! temp)"
  using find_SomeD [OF assms [unfolded failTarget_def]] by simp_all

subsection \<open>Walks along the failure links\<close>

lemma fail_induct [consumes 3, case_names step]:
  assumes s: "shape ns" and f: "fail_ok ns" and k: "k < length ns"
    and step: "\<And>k. k < length ns \<Longrightarrow> (0 < k \<Longrightarrow> P (failure (ns ! k))) \<Longrightarrow> P k"
  shows "P k"
  using k
proof (induction "nat (depth (ns ! k))" arbitrary: k rule: less_induct)
  case less
  show ?case
  proof (rule step [OF less.prems])
    assume p: "0 < k"
    note fd = fail_okD [OF f]
    have "depth (ns ! failure (ns ! k)) < depth (ns ! k)" by (rule fd(3) [OF less.prems p])
    moreover have "0 \<le> depth (ns ! failure (ns ! k))"
      by (rule shape_depth_nonneg [OF s fd(2) [OF less.prems]])
    ultimately have "nat (depth (ns ! failure (ns ! k))) < nat (depth (ns ! k))" by simp
    then show "P (failure (ns ! k))" using fd(2) [OF less.prems] by (rule less.hyps)
  qed
qed

lemma outputWalk_root [simp]: "outputWalk ns 0 = Some 0"
  by (subst outputWalk.simps) (simp add: root_def)

lemma outputWalk_step:
  "0 < k \<Longrightarrow> outputWalk ns k = (if idN (ns ! k) \<noteq> - 1 then Some k else outputWalk ns (failure (ns ! k)))"
  by (subst outputWalk.simps) (simp add: root_def)

lemma outputWalk_total:
  assumes s: "shape ns" and f: "fail_ok ns" and k: "k < length ns"
  shows "\<exists>out. outputWalk ns k = Some out \<and> out < length ns \<and> depth (ns ! out) \<le> depth (ns ! k)
           \<and> (out = 0 \<or> idN (ns ! out) \<noteq> - 1) \<and> (k = 0 \<longrightarrow> out = 0)"
  using s f k
proof (induction k rule: fail_induct)
  case (step k)
  show ?case
  proof (cases "0 < k")
    case False
    with step(1) show ?thesis by auto
  next
    case True
    show ?thesis
    proof (cases "idN (ns ! k) \<noteq> - 1")
      case True
      with \<open>0 < k\<close> step(1) show ?thesis by (simp add: outputWalk_step)
    next
      case False
      from step(2) [OF True] obtain out where o: "outputWalk ns (failure (ns ! k)) = Some out"
        "out < length ns" "depth (ns ! out) \<le> depth (ns ! failure (ns ! k))"
        "out = 0 \<or> idN (ns ! out) \<noteq> - 1" by blast
      from fail_okD(3) [OF f step(1) True] o(3) have "depth (ns ! out) \<le> depth (ns ! k)" by simp
      with o False True show ?thesis by (simp add: outputWalk_step)
    qed
  qed
qed

lemma outputWalk_cong:
  assumes s: "shape ns" and f: "fail_ok ns" and k: "k < length ns"
    and e: "\<And>j. j < length ns \<Longrightarrow> depth (ns ! j) \<le> depth (ns ! k) \<Longrightarrow>
              idN (ns' ! j) = idN (ns ! j) \<and> failure (ns' ! j) = failure (ns ! j)"
  shows "outputWalk ns' k = outputWalk ns k"
  using s f k e
proof (induction k rule: fail_induct)
  case (step k)
  show ?case
  proof (cases "0 < k")
    case False
    then show ?thesis by simp
  next
    case True
    from step(3) [OF step(1)] have a: "idN (ns' ! k) = idN (ns ! k)" "failure (ns' ! k) = failure (ns ! k)"
      by simp_all
    have "outputWalk ns' (failure (ns ! k)) = outputWalk ns (failure (ns ! k))"
    proof (rule step(2) [OF True])
      fix j assume j: "j < length ns" "depth (ns ! j) \<le> depth (ns ! failure (ns ! k))"
      with fail_okD(3) [OF f step(1) True] have "depth (ns ! j) \<le> depth (ns ! k)" by simp
      from step(3) [OF j(1) this] show "idN (ns' ! j) = idN (ns ! j) \<and> failure (ns' ! j) = failure (ns ! j)" .
    qed
    with a True show ?thesis by (simp add: outputWalk_step)
  qed
qed

subsection \<open>One node of the breadth-first pass\<close>

lemma newFailure_ok:
  assumes s: "shape ns" and f: "fail_ok ns" and k: "temp < length ns"
  shows "newFailure ns temp < length ns"
    "0 < temp \<Longrightarrow> depth (ns ! newFailure ns temp) < depth (ns ! temp)"
    "temp = 0 \<Longrightarrow> newFailure ns temp = 0"
proof -
  note d = shapeD [OF s]
  note fd = fail_okD [OF f]
  have "newFailure ns temp < length ns \<and> (0 < temp \<longrightarrow> depth (ns ! newFailure ns temp) < depth (ns ! temp))
    \<and> (temp = 0 \<longrightarrow> newFailure ns temp = 0)"
  proof (cases "depth (ns ! failure (ns ! temp)) < depth (ns ! temp) - 1")
    case False
    then have "newFailure ns temp = failure (ns ! temp)" by (simp add: newFailure_def)
    with fd(1) fd(2) [OF k] fd(3) [OF k] show ?thesis by auto
  next
    case True
    show ?thesis
    proof (cases "failTarget ns temp")
      case None
      with True have "newFailure ns temp = failure (ns ! temp)" by (simp add: newFailure_def)
      with fd(1) fd(2) [OF k] fd(3) [OF k] show ?thesis by auto
    next
      case (Some fc)
      with True have e: "newFailure ns temp = fc" by (simp add: newFailure_def)
      from shape_depth_nonneg [OF s fd(2) [OF k]] True have d2: "2 \<le> depth (ns ! temp)" by simp
      with d(2) have t0: "0 < temp" by (cases "temp = 0") auto
      let ?p = "parent (ns ! temp)"
      from d(5) [OF k t0] k have p: "?p < length ns" by simp
      from d(6) [OF k t0] d2 have dp: "depth (ns ! temp) = depth (ns ! ?p) + 1" "1 \<le> depth (ns ! ?p)"
        by simp_all
      with d(2) have p0: "0 < ?p" by (cases "?p = 0") auto
      note F = fd(2) [OF p] fd(3) [OF p p0]
      note c = shape_child [OF s F(1) failTarget_Some(1) [OF Some]]
      from c(2) c(4) F(2) dp e t0 show ?thesis by simp
    qed
  qed
  then show "newFailure ns temp < length ns"
    "0 < temp \<Longrightarrow> depth (ns ! newFailure ns temp) < depth (ns ! temp)"
    "temp = 0 \<Longrightarrow> newFailure ns temp = 0" by simp_all
qed

lemma set_links_fields:
  assumes "k < length ns"
  shows "length (ns[k := (ns ! k)\<lparr>failure := f, outputN := out\<rparr>]) = length ns"
    "failure ((ns[k := (ns ! k)\<lparr>failure := f, outputN := out\<rparr>]) ! j) = (if j = k then f else failure (ns ! j))"
    "outputN ((ns[k := (ns ! k)\<lparr>failure := f, outputN := out\<rparr>]) ! j) = (if j = k then out else outputN (ns ! j))"
    "depth ((ns[k := (ns ! k)\<lparr>failure := f, outputN := out\<rparr>]) ! j) = depth (ns ! j)"
    "idN ((ns[k := (ns ! k)\<lparr>failure := f, outputN := out\<rparr>]) ! j) = idN (ns ! j)"
    "cN ((ns[k := (ns ! k)\<lparr>failure := f, outputN := out\<rparr>]) ! j) = cN (ns ! j)"
    "parent ((ns[k := (ns ! k)\<lparr>failure := f, outputN := out\<rparr>]) ! j) = parent (ns ! j)"
    "children ((ns[k := (ns ! k)\<lparr>failure := f, outputN := out\<rparr>]) ! j) = children (ns ! j)"
  using assms by (cases "j = k"; simp)+

lemma set_links_skeleton [simp]:
  "skeleton (ns[k := (ns ! k)\<lparr>failure := f, outputN := out\<rparr>]) = skeleton ns"
  unfolding skeleton_def
  by (cases "k < length ns") (simp_all add: map_update list_update_same_conv list_update_beyond)

lemma processNode_simp:
  assumes s: "shape ns" and f: "fail_ok ns" and k: "temp < length ns"
  shows "processNode temp ns
    = (case outputWalk ns (newFailure ns temp) of
         None \<Rightarrow> None
       | Some out \<Rightarrow> Some (ns[temp := (ns ! temp)\<lparr>failure := newFailure ns temp, outputN := out\<rparr>]))"
proof -
  note nf = newFailure_ok [OF s f k]
  let ?ns1 = "ns[temp := (ns ! temp)\<lparr>failure := newFailure ns temp\<rparr>]"
  have "outputWalk ?ns1 (newFailure ns temp) = outputWalk ns (newFailure ns temp)"
  proof (cases "temp = 0")
    case True
    with nf(3) show ?thesis by simp
  next
    case False
    show ?thesis
    proof (rule outputWalk_cong [OF s f nf(1)])
      fix j assume "j < length ns" "depth (ns ! j) \<le> depth (ns ! newFailure ns temp)"
      with nf(2) False have "j \<noteq> temp" by auto
      then show "idN (?ns1 ! j) = idN (ns ! j) \<and> failure (?ns1 ! j) = failure (ns ! j)" by simp
    qed
  qed
  then show ?thesis by (simp add: processNode_eq [OF k])
qed

lemma processNode_ok:
  assumes i: "nodes_ok ns" and k: "temp < length ns"
  shows "\<exists>ns'. processNode temp ns = Some ns' \<and> nodes_ok ns' \<and> skeleton ns' = skeleton ns"
proof -
  from i have s: "shape ns" and f: "fail_ok ns" and o: "out_ok ns" by (simp_all add: nodes_ok_def)
  note nf = newFailure_ok [OF s f k]
  note fd = fail_okD [OF f]
  note od = out_okD [OF o]
  let ?F = "newFailure ns temp"
  from outputWalk_total [OF s f nf(1)] obtain out where out: "outputWalk ns ?F = Some out"
    "out < length ns" "depth (ns ! out) \<le> depth (ns ! ?F)" "?F = 0 \<longrightarrow> out = 0"
    by (elim exE conjE) (rule that)
  let ?ns = "ns[temp := (ns ! temp)\<lparr>failure := ?F, outputN := out\<rparr>]"
  note sf = set_links_fields [OF k]
  have p: "processNode temp ns = Some ?ns" by (simp add: processNode_simp [OF s f k] out(1))
  have 1: "shape ?ns" by (rule skeleton_shape [OF _ s]) simp
  have F: "failure (?ns ! j) = (if j = temp then ?F else failure (ns ! j))" for j by (rule sf(2))
  have O: "outputN (?ns ! j) = (if j = temp then out else outputN (ns ! j))" for j by (rule sf(3))
  have D: "depth (?ns ! j) = depth (ns ! j)" for j by (rule sf(4))
  have L: "length ?ns = length ns" by simp
  have 2: "fail_ok ?ns"
  proof (rule fail_okI)
    show "failure (?ns ! 0) = 0"
    proof (cases "temp = 0")
      case True
      with nf(3) show ?thesis unfolding F by simp
    next
      case False
      with fd(1) show ?thesis unfolding F by simp
    qed
    show "failure (?ns ! j) < length ?ns" if "j < length ?ns" for j
    proof (cases "j = temp")
      case True
      with nf(1) show ?thesis unfolding F L by simp
    next
      case False
      with fd(2) [of j] that show ?thesis unfolding F L by simp
    qed
    show "depth (?ns ! failure (?ns ! j)) < depth (?ns ! j)" if "j < length ?ns" "0 < j" for j
    proof (cases "j = temp")
      case True
      with nf(2) that(2) show ?thesis unfolding F D by simp
    next
      case False
      with fd(3) [of j] that show ?thesis unfolding F D L by simp
    qed
  qed
  have 3: "out_ok ?ns"
  proof (rule out_okI)
    show "outputN (?ns ! 0) = 0"
    proof (cases "temp = 0")
      case True
      with nf(3) out(4) show ?thesis unfolding O by simp
    next
      case False
      with od(1) show ?thesis unfolding O by simp
    qed
    show "outputN (?ns ! j) < length ?ns" if "j < length ?ns" for j
    proof (cases "j = temp")
      case True
      with out(2) show ?thesis unfolding O L by simp
    next
      case False
      with od(2) [of j] that show ?thesis unfolding O L by simp
    qed
    show "depth (?ns ! outputN (?ns ! j)) < depth (?ns ! j)" if "j < length ?ns" "0 < j" for j
    proof (cases "j = temp")
      case True
      with nf(2) out(3) that(2) have "depth (ns ! out) < depth (ns ! temp)" by simp
      with True show ?thesis unfolding O D by simp
    next
      case False
      with od(3) [of j] that show ?thesis unfolding O D L by simp
    qed
  qed
  from p 1 2 3 show ?thesis by (simp add: nodes_ok_def)
qed

subsection \<open>Termination of the breadth-first pass\<close>

lemma pow_sum_below: "k \<le> n \<Longrightarrow> (\<Sum>c\<in>{k..<n}. (2::nat) ^ (n - c)) + 2 = 2 * 2 ^ (n - k)"
proof (induction k rule: inc_induct)
  case base
  show ?case by simp
next
  case (step m)
  from step(2) have "n - m = Suc (n - Suc m)" by simp
  with step show ?case by (simp add: sum.atLeast_Suc_lessThan)
qed

lemma weight_children:
  assumes s: "shape ns" and k: "k < length ns"
  shows "weight (length ns) (children (ns ! k)) < 2 ^ (length ns - k)"
proof -
  let ?n = "length ns"
  let ?f = "\<lambda>c. (2::nat) ^ (?n - c)"
  note d = shapeD [OF s]
  have "weight ?n (children (ns ! k)) = sum ?f (set (children (ns ! k)))"
    unfolding weight_def by (rule sum_list_distinct_conv_sum_set [OF d(3) [OF k]])
  also have "\<dots> \<le> sum ?f {Suc k..<?n}"
  proof (rule sum_mono2)
    show "finite {Suc k..<?n}" by simp
    show "set (children (ns ! k)) \<subseteq> {Suc k..<?n}" using d(4) [OF k] by fastforce
  qed simp
  also have "\<dots> < 2 ^ (?n - k)"
  proof -
    from k have "Suc k \<le> ?n" by simp
    from pow_sum_below [OF this] have "sum ?f {Suc k..<?n} + 2 = 2 * 2 ^ (?n - Suc k)" .
    moreover from k have "?n - k = Suc (?n - Suc k)" by simp
    ultimately show ?thesis by simp
  qed
  finally show ?thesis .
qed

lemma weight_Cons [simp]: "weight n (k # q) = 2 ^ (n - k) + weight n q"
  by (simp add: weight_def)

lemma weight_append [simp]: "weight n (q @ q') = weight n q + weight n q'"
  by (simp add: weight_def)

lemma bfs_Nil [simp]: "bfs [] ns = Some ns"
  by (subst bfs.simps) simp

lemma bfs_Cons:
  "bfs (temp # rest) ns
     = (case processNode temp ns of None \<Rightarrow> None | Some ns' \<Rightarrow> bfs (rest @ children (ns ! temp)) ns')"
  by (subst bfs.simps) simp

lemma bfs_ok:
  assumes "nodes_ok ns" "\<forall>k\<in>set q. k < length ns"
  shows "\<exists>ns'. bfs q ns = Some ns' \<and> nodes_ok ns' \<and> skeleton ns' = skeleton ns"
  using assms
proof (induction "weight (length ns) q" arbitrary: q ns rule: less_induct)
  case less
  show ?case
  proof (cases q)
    case Nil
    with less.prems show ?thesis by simp
  next
    case (Cons temp rest)
    with less.prems have k: "temp < length ns" by simp
    from less.prems(1) have s: "shape ns" by (simp add: nodes_ok_def)
    from processNode_ok [OF less.prems(1) k] obtain ns1 where p: "processNode temp ns = Some ns1"
      "nodes_ok ns1" "skeleton ns1 = skeleton ns" by blast
    note l = skeleton_length [OF p(3)]
    let ?q = "rest @ children (ns ! temp)"
    have w: "weight (length ns1) ?q < weight (length ns) q"
      using weight_children [OF s k] Cons l by simp
    have b: "\<forall>k\<in>set ?q. k < length ns1"
      using less.prems(2) Cons l shapeD(4) [OF s k] by auto
    from less.hyps [OF w p(2) b] obtain ns' where
      "bfs ?q ns1 = Some ns'" "nodes_ok ns'" "skeleton ns' = skeleton ns1" by blast
    with p Cons show ?thesis by (simp add: bfs_Cons)
  qed
qed

subsection \<open>Paths\<close>

lemma pathUp_length [simp]: "length (pathUp m ns k) = m"
  by (induction m arbitrary: k) simp_all

lemma pathOf_length: "length (pathOf ns k) = nat (depth (ns ! k))"
  by (simp add: pathOf_def)

lemma pathOf_root: "shape ns \<Longrightarrow> pathOf ns 0 = []"
  using shapeD(2) [of ns] by (simp add: pathOf_def)

lemma pathOf_nonroot:
  assumes s: "shape ns" and k: "k < length ns" "0 < k"
  shows "pathOf ns k = pathOf ns (parent (ns ! k)) @ [cN (ns ! k)]"
proof -
  note d = shapeD [OF s]
  from d(5) [OF k] k have p: "parent (ns ! k) < length ns" by simp
  from d(6) [OF k] shape_depth_nonneg [OF s p]
  have "nat (depth (ns ! k)) = Suc (nat (depth (ns ! parent (ns ! k))))" by simp
  then show ?thesis by (simp add: pathOf_def)
qed

lemma pathOf_eq:
  assumes s: "shape ns" and s': "shape ns'" and k: "k < length ns" "k < length ns'"
    and e: "\<And>j. j \<le> k \<Longrightarrow> parent (ns' ! j) = parent (ns ! j) \<and> cN (ns' ! j) = cN (ns ! j)"
  shows "pathOf ns' k = pathOf ns k"
  using k e
proof (induction k rule: less_induct)
  case (less k)
  show ?case
  proof (cases "k = 0")
    case True
    with pathOf_root [OF s] pathOf_root [OF s'] show ?thesis by simp
  next
    case False
    then have k0: "0 < k" by simp
    from less.prems(3) [of k] have a: "parent (ns' ! k) = parent (ns ! k)" "cN (ns' ! k) = cN (ns ! k)"
      by simp_all
    note p = shapeD(5) [OF s less.prems(1) k0]
    have "pathOf ns' (parent (ns ! k)) = pathOf ns (parent (ns ! k))"
    proof (rule less.IH [OF p])
      show "parent (ns ! k) < length ns" "parent (ns ! k) < length ns'" using p less.prems by simp_all
      fix j assume "j \<le> parent (ns ! k)"
      with p have "j \<le> k" by simp
      then show "parent (ns' ! j) = parent (ns ! j) \<and> cN (ns' ! j) = cN (ns ! j)" by (rule less.prems(3))
    qed
    with pathOf_nonroot [OF s less.prems(1) k0] pathOf_nonroot [OF s' less.prems(2) k0] a
    show ?thesis by simp
  qed
qed

lemma pathOf_skeleton:
  assumes e: "skeleton ns' = skeleton ns" and s: "shape ns" and k: "k < length ns"
  shows "pathOf ns' k = pathOf ns k"
proof (rule pathOf_eq [OF s skeleton_shape [OF e s] k])
  show "k < length ns'" using k skeleton_length [OF e] by simp
  fix j assume "j \<le> k"
  with k have "j < length ns" by simp
  from skeleton_nth(3,4) [OF e this] show "parent (ns' ! j) = parent (ns ! j) \<and> cN (ns' ! j) = cN (ns ! j)"
    by simp
qed

lemma pathOf_grow_old:
  assumes s: "shape ns" and c: "current < length ns" and k: "k < length ns"
  shows "pathOf (grow ns current character) k = pathOf ns k"
proof (rule pathOf_eq [OF s grow_shape [OF s c] k])
  show "k < length (grow ns current character)" using k by simp
  fix j assume "j \<le> k"
  with k have "j < length ns" by simp
  from grow_fields_old(2,3) [OF c this]
  show "parent (grow ns current character ! j) = parent (ns ! j)
    \<and> cN (grow ns current character ! j) = cN (ns ! j)" by simp
qed

lemma pathOf_grow_new:
  assumes s: "shape ns" and c: "current < length ns"
  shows "pathOf (grow ns current character) (length ns) = pathOf ns current @ [character]"
proof -
  have "0 < length ns" using c by (cases ns) auto
  with pathOf_nonroot [OF grow_shape [OF s c], of "length ns" character]
    grow_fields_new(2,3) [OF c] pathOf_grow_old [OF s c c]
  show ?thesis by simp
qed

subsection \<open>Setting the keyword index of a node\<close>

lemma set_id_fields:
  assumes "k < length ns"
  shows "length (ns[k := (ns ! k)\<lparr>idN := v\<rparr>]) = length ns"
    "idN ((ns[k := (ns ! k)\<lparr>idN := v\<rparr>]) ! j) = (if j = k then v else idN (ns ! j))"
    "failure ((ns[k := (ns ! k)\<lparr>idN := v\<rparr>]) ! j) = failure (ns ! j)"
    "outputN ((ns[k := (ns ! k)\<lparr>idN := v\<rparr>]) ! j) = outputN (ns ! j)"
    "depth ((ns[k := (ns ! k)\<lparr>idN := v\<rparr>]) ! j) = depth (ns ! j)"
    "cN ((ns[k := (ns ! k)\<lparr>idN := v\<rparr>]) ! j) = cN (ns ! j)"
    "parent ((ns[k := (ns ! k)\<lparr>idN := v\<rparr>]) ! j) = parent (ns ! j)"
    "children ((ns[k := (ns ! k)\<lparr>idN := v\<rparr>]) ! j) = children (ns ! j)"
  using assms by (cases "j = k"; simp)+

lemma set_id_shape:
  assumes s: "shape ns" and k: "k < length ns"
  shows "shape (ns[k := (ns ! k)\<lparr>idN := v\<rparr>])"
  by (rule shape_cong [OF _ _ s]) (simp_all add: set_id_fields [OF k])

lemma set_id_nodes_ok:
  assumes i: "nodes_ok ns" and k: "k < length ns"
  shows "nodes_ok (ns[k := (ns ! k)\<lparr>idN := v\<rparr>])"
proof -
  from i have s: "shape ns" and f: "fail_ok ns" and o: "out_ok ns" by (simp_all add: nodes_ok_def)
  note sf = set_id_fields [OF k]
  note fd = fail_okD [OF f]
  note od = out_okD [OF o]
  have "fail_ok (ns[k := (ns ! k)\<lparr>idN := v\<rparr>])"
    by (rule fail_okI) (simp_all add: sf fd)
  moreover have "out_ok (ns[k := (ns ! k)\<lparr>idN := v\<rparr>])"
    by (rule out_okI) (simp_all add: sf od)
  ultimately show ?thesis using set_id_shape [OF s k] by (simp add: nodes_ok_def)
qed

lemma pathOf_set_id:
  assumes s: "shape ns" and k: "k < length ns" and j: "j < length ns"
  shows "pathOf (ns[k := (ns ! k)\<lparr>idN := v\<rparr>]) j = pathOf ns j"
  using pathOf_eq [OF s set_id_shape [OF s k] j] j by (simp add: set_id_fields [OF k])

subsection \<open>The steps of the construction\<close>

lemma step_nodes_ok:
  assumes "step cs t t'" "nodes_ok (trieNodes t)"
  shows "nodes_ok (trieNodes t')" "length (trieNodes t) \<le> length (trieNodes t')"
proof -
  from assms have "nodes_ok (trieNodes t') \<and> length (trieNodes t) \<le> length (trieNodes t')"
  proof (cases rule: step.cases)
    case (Grow current character)
    with grow_nodes_ok [OF assms(2) Grow(2)] show ?thesis by simp
  next
    case (Mark current key)
    with set_id_nodes_ok [OF assms(2) Mark(2)] show ?thesis by simp
  next
    case (Link temp ns')
    from processNode_ok [OF assms(2) Link(2)] Link(3) skeleton_length [of ns' "trieNodes t"] Link(1)
    show ?thesis by auto
  qed
  then show "nodes_ok (trieNodes t')" "length (trieNodes t) \<le> length (trieNodes t')" by simp_all
qed

lemma steps_nodes_ok:
  assumes "(step cs)\<^sup>*\<^sup>* t t'" "nodes_ok (trieNodes t)"
  shows "nodes_ok (trieNodes t') \<and> length (trieNodes t) \<le> length (trieNodes t')"
  using assms
proof (induction rule: rtranclp_induct)
  case base
  then show ?case by simp
next
  case (step y z)
  with step_nodes_ok [OF step(2)] show ?case by auto
qed

lemma step_pathOf:
  assumes "step cs t t'" "nodes_ok (trieNodes t)" "k < length (trieNodes t)"
  shows "pathOf (trieNodes t') k = pathOf (trieNodes t) k"
proof -
  from assms(2) have s: "shape (trieNodes t)" by (simp add: nodes_ok_def)
  from assms(1) show ?thesis
  proof (cases rule: step.cases)
    case (Grow current character)
    with pathOf_grow_old [OF s Grow(2) assms(3)] show ?thesis by simp
  next
    case (Mark current key)
    with pathOf_set_id [OF s Mark(2) assms(3)] show ?thesis by simp
  next
    case (Link temp ns')
    from processNode_ok [OF assms(2) Link(2)] Link(3) have "skeleton ns' = skeleton (trieNodes t)" by auto
    from pathOf_skeleton [OF this s assms(3)] Link(1) show ?thesis by simp
  qed
qed

lemma steps_pathOf:
  assumes "(step cs)\<^sup>*\<^sup>* t t'" "nodes_ok (trieNodes t)" "k < length (trieNodes t)"
  shows "pathOf (trieNodes t') k = pathOf (trieNodes t) k"
  using assms
proof (induction rule: rtranclp_induct)
  case base
  show ?case by simp
next
  case (step y z)
  from steps_nodes_ok [OF step(1) step(4)] step(5) have "nodes_ok (trieNodes y)" "k < length (trieNodes y)"
    by simp_all
  from step_pathOf [OF step(2) this] step(3) [OF step(4,5)] show ?case by simp
qed

lemma find_app:
  "find P (xs @ ys) = (case find P xs of None \<Rightarrow> find P ys | Some x \<Rightarrow> Some x)"
  by (induction xs) simp_all

lemma childWith_grow_new:
  assumes c: "current < length ns" and n: "childWith ns current character = None"
    and b: "\<forall>x\<in>set (children (ns ! current)). x < length ns"
  shows "childWith (grow ns current character) current character = Some (length ns)"
proof -
  let ?g = "grow ns current character"
  have "find (\<lambda>x. cN (?g ! x) = character) (children (ns ! current)) = None"
  proof -
    have "find (\<lambda>x. cN (?g ! x) = character) (children (ns ! current))
      = find (\<lambda>x. cN (ns ! x) = character) (children (ns ! current))"
      by (rule find_cong) (use b grow_fields_old(3) [OF c] in auto)
    with n show ?thesis by (simp add: childWith_def)
  qed
  then show ?thesis
    by (simp add: childWith_def grow_fields_old(7) [OF c c] grow_fields_new(3) [OF c] find_app)
qed

lemma addChild_steps:
  assumes i: "nodes_ok (trieNodes t)" and c: "current < length (trieNodes t)"
    and a: "addChild current character t = (child, t')"
  shows "(step cs)\<^sup>*\<^sup>* t t'"
    "pathOf (trieNodes t') child = pathOf (trieNodes t) current @ [character]"
    "childWith (trieNodes t') current character = Some child"
proof -
  from i have s: "shape (trieNodes t)" by (simp add: nodes_ok_def)
  have "(step cs)\<^sup>*\<^sup>* t t' \<and> pathOf (trieNodes t') child = pathOf (trieNodes t) current @ [character]
    \<and> childWith (trieNodes t') current character = Some child"
  proof (cases "childWith (trieNodes t) current character")
    case (Some ch)
    with a addChild_found [OF Some] have e: "ch = child" "t' = t" by simp_all
    note cw = childWith_Some [OF Some]
    note sc = shape_child [OF s c cw(1)]
    from sc(1) have "0 < ch" by simp
    from pathOf_nonroot [OF s sc(2) this] sc(3) cw(2) e Some show ?thesis by simp
  next
    case None
    with a addChild_new [OF None c] have e: "child = length (trieNodes t)"
      "t' = t\<lparr>trieNodes := grow (trieNodes t) current character\<rparr>" by simp_all
    have "step cs t t'" unfolding e by (rule step.Grow [OF c None])
    moreover have "\<forall>x\<in>set (children (trieNodes t ! current)). x < length (trieNodes t)"
      using shapeD(4) [OF s c] by blast
    ultimately show ?thesis
      using pathOf_grow_new [OF s c] childWith_grow_new [OF c None] e by simp
  qed
  then show "(step cs)\<^sup>*\<^sup>* t t'"
    "pathOf (trieNodes t') child = pathOf (trieNodes t) current @ [character]"
    "childWith (trieNodes t') current character = Some child" by simp_all
qed

lemma addPath_steps:
  assumes "nodes_ok (trieNodes t)" "current < length (trieNodes t)"
    "addPath cs key current t = (node, t')"
  shows "(step cs)\<^sup>*\<^sup>* t t' \<and>
    pathOf (trieNodes t') node = pathOf (trieNodes t) current @ map (fold_case cs) key"
  using assms
proof (induction key arbitrary: current t)
  case Nil
  then show ?case by simp
next
  case (Cons character key)
  obtain child t1 where a: "addChild current (fold_case cs character) t = (child, t1)"
    by (cases "addChild current (fold_case cs character) t") auto
  note ok = addChild_ok [OF Cons.prems(1,2) a]
  note st = addChild_steps [OF Cons.prems(1,2) a]
  from Cons.prems(3) a have "addPath cs key child t1 = (node, t')" by simp
  from Cons.IH [OF ok(1) ok(2) this] have r: "(step cs)\<^sup>*\<^sup>* t1 t'"
    "pathOf (trieNodes t') node = pathOf (trieNodes t1) child @ map (fold_case cs) key" by simp_all
  from st(1) [of cs] r(1) have "(step cs)\<^sup>*\<^sup>* t t'" by (rule rtranclp_trans)
  with r(2) st(2) show ?case by simp
qed

lemma bfs_steps:
  assumes "nodes_ok (trieNodes t)" "\<forall>k\<in>set q. k < length (trieNodes t)"
  shows "\<exists>ns'. bfs q (trieNodes t) = Some ns' \<and> (step cs)\<^sup>*\<^sup>* t (t\<lparr>trieNodes := ns'\<rparr>)"
  using assms
proof (induction "weight (length (trieNodes t)) q" arbitrary: q t rule: less_induct)
  case less
  let ?ns = "trieNodes t"
  show ?case
  proof (cases q)
    case Nil
    then show ?thesis by simp
  next
    case (Cons temp rest)
    with less.prems have k: "temp < length ?ns" by simp
    from less.prems(1) have s: "shape ?ns" by (simp add: nodes_ok_def)
    from processNode_ok [OF less.prems(1) k] obtain ns1 where p: "processNode temp ?ns = Some ns1"
      "nodes_ok ns1" "skeleton ns1 = skeleton ?ns" by blast
    note l = skeleton_length [OF p(3)]
    let ?q = "rest @ children (?ns ! temp)"
    let ?t = "t\<lparr>trieNodes := ns1\<rparr>"
    have w: "weight (length (trieNodes ?t)) ?q < weight (length ?ns) q"
      using weight_children [OF s k] Cons l by simp
    have b: "\<forall>k\<in>set ?q. k < length (trieNodes ?t)"
      using less.prems(2) Cons l shapeD(4) [OF s k] by auto
    have n: "nodes_ok (trieNodes ?t)" using p(2) by simp
    from less.hyps [OF w n b] obtain ns' where
      r: "bfs ?q ns1 = Some ns'" "(step cs)\<^sup>*\<^sup>* ?t (?t\<lparr>trieNodes := ns'\<rparr>)" by auto
    have "step cs t ?t" by (rule step.Link [OF k p(1)])
    with r(2) have "(step cs)\<^sup>*\<^sup>* t (t\<lparr>trieNodes := ns'\<rparr>)" by simp
    with r(1) p(1) Cons show ?thesis by (simp add: bfs_Cons)
  qed
qed

lemma addFailureLinks_steps:
  assumes "nodes_ok (trieNodes t)"
  shows "\<exists>t'. addFailureLinks t = Some t' \<and> (step cs)\<^sup>*\<^sup>* t t'"
proof -
  from assms have "0 < length (trieNodes t)" using shapeD(1) by (simp add: nodes_ok_def)
  then have "\<forall>k\<in>set [root]. k < length (trieNodes t)" by (simp add: root_def)
  from bfs_steps [OF assms this, of cs] show ?thesis by (auto simp: addFailureLinks_def)
qed

lemma addString_steps:
  assumes i: "nodes_ok (trieNodes t)"
  shows "\<exists>e t'. addString cs key addFailure t = Some (e, t') \<and> (step cs)\<^sup>*\<^sup>* t t'"
proof (cases "key = []")
  case True
  then show ?thesis by (simp add: addString_def)
next
  case False
  from i have z: "root < length (trieNodes t)" using shapeD(1) by (simp add: nodes_ok_def root_def)
  obtain current t1 where a: "addPath cs key root t = (current, t1)"
    by (cases "addPath cs key root t") auto
  note ok = addPath_ok [OF i z a]
  note st = addPath_steps [OF i z a]
  from ok have i1: "nodes_ok (trieNodes t1)" and c: "current < length (trieNodes t1)"
    and c0: "0 < current" using False by (simp_all add: root_def)
  show ?thesis
  proof (cases "idN (trieNodes t1 ! current) \<noteq> - 1")
    case True
    with a False st show ?thesis by (simp add: addString_def)
  next
    case nodup: False
    let ?t2 = "t1\<lparr>trieNodes := (trieNodes t1)[current := (trieNodes t1 ! current)\<lparr>idN := int (length (keywordsT t1))\<rparr>],
                 keywordsT := keywordsT t1 @ [Result_stub key (length (keywordsT t1))]\<rparr>"
    from i have s: "shape (trieNodes t)" by (simp add: nodes_ok_def)
    from st pathOf_root [OF s] have p: "map (fold_case cs) key = pathOf (trieNodes t1) current"
      by (simp add: root_def)
    from nodup have "idN (trieNodes t1 ! current) = - 1" by simp
    from step.Mark [OF c c0 this p False] have m: "step cs t1 ?t2" .
    from st have "(step cs)\<^sup>*\<^sup>* t t1" by simp
    from this m have s2: "(step cs)\<^sup>*\<^sup>* t ?t2" by (rule rtranclp.rtrancl_into_rtrancl)
    show ?thesis
    proof (cases addFailure)
      case False
      with a nodup \<open>key \<noteq> []\<close> s2 show ?thesis by (simp add: addString_def Let_def)
    next
      case True
      from step_nodes_ok(1) [OF m i1] have "nodes_ok (trieNodes ?t2)" .
      from addFailureLinks_steps [OF this, of cs] obtain t3 where
        l: "addFailureLinks ?t2 = Some t3" "(step cs)\<^sup>*\<^sup>* ?t2 t3" by blast
      from s2 l(2) have "(step cs)\<^sup>*\<^sup>* t t3" by (rule rtranclp_trans)
      with a nodup \<open>key \<noteq> []\<close> True l(1) show ?thesis by (simp add: addString_def Let_def)
    qed
  qed
qed

lemma addAll_steps:
  assumes "nodes_ok (trieNodes t)"
  shows "\<exists>e t'. addAll cs keyList t = Some (e, t') \<and> (step cs)\<^sup>*\<^sup>* t t'"
  using assms
proof (induction keyList arbitrary: t)
  case Nil
  show ?case by simp
next
  case (Cons key keyList)
  from addString_steps [OF Cons.prems, of cs key False] obtain e t1 where
    a: "addString cs key False t = Some (e, t1)" "(step cs)\<^sup>*\<^sup>* t t1" by blast
  show ?case
  proof (cases e)
    case (Some err)
    with a show ?thesis by simp
  next
    case None
    from steps_nodes_ok [OF a(2) Cons.prems] have "nodes_ok (trieNodes t1)" by simp
    from Cons.IH [OF this] obtain e' t' where
      "addAll cs keyList t1 = Some (e', t')" "(step cs)\<^sup>*\<^sup>* t1 t'" by blast
    with a None show ?thesis by auto
  qed
qed

lemma addString_vector_steps:
  assumes "nodes_ok (trieNodes t)"
  shows "\<exists>e t'. addString_vector cs keyList t = Some (e, t') \<and> (step cs)\<^sup>*\<^sup>* t t'"
proof -
  from addAll_steps [OF assms, of cs keyList] obtain e t1 where
    a: "addAll cs keyList t = Some (e, t1)" "(step cs)\<^sup>*\<^sup>* t t1" by blast
  show ?thesis
  proof (cases e)
    case (Some err)
    with a show ?thesis by (simp add: addString_vector_def)
  next
    case None
    from steps_nodes_ok [OF a(2) assms] have "nodes_ok (trieNodes t1)" by simp
    from addFailureLinks_steps [OF this, of cs] obtain t2 where
      l: "addFailureLinks t1 = Some t2" "(step cs)\<^sup>*\<^sup>* t1 t2" by blast
    from a(2) l(2) have "(step cs)\<^sup>*\<^sup>* t t2" by (rule rtranclp_trans)
    with a None l(1) show ?thesis by (simp add: addString_vector_def)
  qed
qed

lemma call_on_steps:
  assumes "nodes_ok (trieNodes t)"
  shows "\<exists>e t'. call_on cs x t = Some (e, t') \<and> (step cs)\<^sup>*\<^sup>* t t'"
  using addString_steps [OF assms] addString_vector_steps [OF assms]
  by (cases x) (simp_all add: addString_set_def)

lemma calls_steps:
  assumes "nodes_ok (trieNodes t)"
  shows "\<exists>t'. calls cs xs t = Some t' \<and> (step cs)\<^sup>*\<^sup>* t t'"
  using assms
proof (induction xs arbitrary: t)
  case Nil
  show ?case by simp
next
  case (Cons x xs)
  from call_on_steps [OF Cons.prems, of cs x] obtain e t1 where
    a: "call_on cs x t = Some (e, t1)" "(step cs)\<^sup>*\<^sup>* t t1" by blast
  from steps_nodes_ok [OF a(2) Cons.prems] have "nodes_ok (trieNodes t1)" by simp
  from Cons.IH [OF this] obtain t' where "calls cs xs t1 = Some t'" "(step cs)\<^sup>*\<^sup>* t1 t'" by blast
  with a show ?case by auto
qed

lemma init_nodes_ok: "nodes_ok (trieNodes keyword_trie_init)"
proof -
  have "shape [rootNode]" by (rule shapeI) (simp_all add: rootNode_def)
  moreover have "fail_ok [rootNode]" by (rule fail_okI) (simp_all add: rootNode_def root_def)
  moreover have "out_ok [rootNode]" by (rule out_okI) (simp_all add: rootNode_def root_def)
  ultimately show ?thesis by (simp add: nodes_ok_def keyword_trie_init_def)
qed

lemma calls_init:
  "\<exists>t. calls cs xs keyword_trie_init = Some t \<and> (step cs)\<^sup>*\<^sup>* keyword_trie_init t
     \<and> nodes_ok (trieNodes t)"
  using calls_steps [OF init_nodes_ok, of cs xs] steps_nodes_ok [OF _ init_nodes_ok, of cs]
  by blast

lemma failure_reaches_root:
  assumes s: "shape ns" and f: "fail_ok ns" and k: "k < length ns"
  shows "\<exists>m. ((\<lambda>j. failure (ns ! j)) ^^ m) k = root"
  using s f k
proof (induction k rule: fail_induct)
  case (step k)
  show ?case
  proof (cases "0 < k")
    case False
    then have "((\<lambda>j. failure (ns ! j)) ^^ 0) k = root" by (simp add: root_def)
    then show ?thesis by blast
  next
    case True
    from step(2) [OF True] obtain m where "((\<lambda>j. failure (ns ! j)) ^^ m) (failure (ns ! k)) = root" by blast
    then have "((\<lambda>j. failure (ns ! j)) ^^ Suc m) k = root" by (simp del: funpow.simps add: funpow_Suc_right)
    then show ?thesis by blast
  qed
qed

text \<open>
  C8. After any sequence of calls of the construction interface on a new trie (single
  insertions with or without the link pass, batches, also calls that threw), every call
  has returned, the failure link of the root is the root, the failure link of every
  other node is strictly less deep than the node, and from every node the root is
  reached by following the failure links finitely often.
\<close>

theorem link_structure_invariant:
  "\<exists>t. calls cs xs keyword_trie_init = Some t
     \<and> failure (trieNodes t ! root) = root
     \<and> (\<forall>k<length (trieNodes t). k \<noteq> root \<longrightarrow>
           depth (trieNodes t ! failure (trieNodes t ! k)) < depth (trieNodes t ! k))
     \<and> (\<forall>k<length (trieNodes t). \<exists>m. ((\<lambda>j. failure (trieNodes t ! j)) ^^ m) k = root)"
proof -
  from calls_init [of cs xs] obtain t where t: "calls cs xs keyword_trie_init = Some t"
    "nodes_ok (trieNodes t)" by blast
  from t(2) have s: "shape (trieNodes t)" and f: "fail_ok (trieNodes t)" by (simp_all add: nodes_ok_def)
  note fd = fail_okD [OF f]
  have "failure (trieNodes t ! root) = root" using fd(1) by (simp add: root_def)
  moreover have "depth (trieNodes t ! failure (trieNodes t ! k)) < depth (trieNodes t ! k)"
    if "k < length (trieNodes t)" "k \<noteq> root" for k
    using fd(3) [of k] that by (simp add: root_def)
  moreover have "\<exists>m. ((\<lambda>j. failure (trieNodes t ! j)) ^^ m) k = root"
    if "k < length (trieNodes t)" for k
    by (rule failure_reaches_root [OF s f that])
  ultimately show ?thesis using t(1) by blast
qed

theorem link_structure_invariant_witness:
  "\<exists>t. calls True [AddString ''he'' False, AddSet {''aab'', ''b''}] keyword_trie_init = Some t
     \<and> length (trieNodes t) = 7
     \<and> depth (trieNodes t ! failure (trieNodes t ! 5)) < depth (trieNodes t ! 5)"
proof -
  let ?xs = "[AddString ''he'' False, AddSet {''aab'', ''b''}]"
  from link_structure_invariant [of True ?xs] obtain t where
    t: "calls True ?xs keyword_trie_init = Some t"
    and d: "\<forall>k<length (trieNodes t). k \<noteq> root \<longrightarrow>
           depth (trieNodes t ! failure (trieNodes t ! k)) < depth (trieNodes t ! k)" by blast
  have "length (trieNodes (the (calls True ?xs keyword_trie_init))) = 7" by code_simp
  with t have l: "length (trieNodes t) = 7" by simp
  with d have "depth (trieNodes t ! failure (trieNodes t ! 5)) < depth (trieNodes t ! 5)"
    by (simp add: root_def)
  with t l show ?thesis by blast
qed

section \<open>Keyword identifiers, case folding and duplicates\<close>

lemma addChild_keywords: "keywordsT (snd (addChild current character t)) = keywordsT t"
  by (simp add: addChild_def Let_def split: option.split)

lemma addPath_keywords: "keywordsT (snd (addPath cs key current t)) = keywordsT t"
proof (induction key arbitrary: current t)
  case Nil
  show ?case by simp
next
  case (Cons character key)
  obtain child t1 where a: "addChild current (fold_case cs character) t = (child, t1)"
    by (cases "addChild current (fold_case cs character) t") auto
  with addChild_keywords [of current "fold_case cs character" t] Cons.IH [of child t1]
  show ?case by simp
qed

lemma addFailureLinks_keywords: "addFailureLinks t = Some t' \<Longrightarrow> keywordsT t' = keywordsT t"
  by (auto simp: addFailureLinks_def split: option.splits)

lemma addString_keywords:
  assumes "addString cs key addFailure t = Some (e, t')"
  shows "keywordsT t' = keywordsT t @
    (if key \<noteq> [] \<and> e = None then [Result_stub key (length (keywordsT t))] else [])"
proof (cases "key = []")
  case True
  with assms show ?thesis by (simp add: addString_def)
next
  case False
  obtain current t1 where a: "addPath cs key root t = (current, t1)"
    by (cases "addPath cs key root t") auto
  with addPath_keywords [of cs key root t] have k: "keywordsT t1 = keywordsT t" by simp
  from assms False a k show ?thesis
    by (auto simp: addString_def Let_def split: if_splits option.splits dest: addFailureLinks_keywords)
qed

lemma stubs_from_Nil [simp]: "stubs_from n [] = []"
  by (simp add: stubs_from_def)

lemma stubs_from_Cons [simp]: "stubs_from n (key # keyList) = Result_stub key n # stubs_from (Suc n) keyList"
  by (simp add: stubs_from_def)

lemma addAll_keywords:
  assumes "addAll cs keyList t = Some (None, t')"
  shows "keywordsT t' = keywordsT t @ stubs_from (length (keywordsT t)) (filter (\<lambda>key. key \<noteq> []) keyList)"
  using assms
proof (induction keyList arbitrary: t)
  case Nil
  then show ?case by simp
next
  case (Cons key keyList)
  from Cons.prems obtain t1 where a: "addString cs key False t = Some (None, t1)"
    "addAll cs keyList t1 = Some (None, t')"
    by (auto split: option.splits prod.splits)
  from addString_keywords [OF a(1)] Cons.IH [OF a(2)] show ?case by simp
qed

text \<open>
  C10. When the overload of \<open>addString\<close> for a \<open>std::set\<close> returns, the keyword
  list has grown by the non-empty keywords of the set in ascending lexicographic order,
  numbered consecutively from the old length of the list: the identifiers follow the
  order of the set and not the order in which the caller wrote the keywords.
\<close>

theorem set_batch_ids_sorted:
  assumes "addString_set cs keyList t = Some (None, t')"
  shows "keywordsT t' = keywordsT t @
     stubs_from (length (keywordsT t)) (filter (\<lambda>key. key \<noteq> []) (sorted_list_of_set keyList))"
proof -
  from assms obtain t1 where a: "addAll cs (sorted_list_of_set keyList) t = Some (None, t1)"
    "addFailureLinks t1 = Some t'"
    by (auto simp: addString_set_def addString_vector_def split: option.splits prod.splits)
  from addAll_keywords [OF a(1)] addFailureLinks_keywords [OF a(2)] show ?thesis by simp
qed

theorem set_batch_ids_sorted_witness:
  "addString_set True {''we'', ''she'', ''he''} keyword_trie_init = Some (None, batch_of_three)
   \<and> keywordsT batch_of_three = [Result_stub ''he'' 0, Result_stub ''she'' 1, Result_stub ''we'' 2]"
proof -
  have h: "addString_set True {''we'', ''she'', ''he''} keyword_trie_init = Some (None, batch_of_three)"
    unfolding batch_of_three_def by code_simp
  have s: "sorted_list_of_set {''we'', ''she'', ''he''} = [''he'', ''she'', ''we'']" by code_simp
  from set_batch_ids_sorted [OF h] s
  have "keywordsT batch_of_three = [Result_stub ''he'' 0, Result_stub ''she'' 1, Result_stub ''we'' 2]"
    by (simp add: keyword_trie_init_def numeral_2_eq_2)
  with h show ?thesis by simp
qed

subsection \<open>Case folding\<close>

lemma parseStep_fold:
  "parseStep False t i character current Results = parseStep True t i (tolower character) current Results"
  by (simp add: parseStep_def fold_case_def)

lemma parseLoop_fold:
  "parseLoop False t i text current Results = parseLoop True t i (map tolower text) current Results"
  by (induction "text" arbitrary: i current Results)
    (simp_all add: parseStep_fold split: option.split sum.split prod.split)

lemma addPath_fold: "addPath False key current t = addPath True (map tolower key) current t"
  by (induction key arbitrary: current t) (simp_all add: fold_case_def split: prod.split)

text \<open>
  C7. Without case sensitivity a scan is the case-sensitive scan of the folded text, and
  the insertion walks and creates the edges of the folded key; with "Her" inserted,
  the scan of "usheRs" reports this keyword from offset 2 to offset 4, the position
  of the letter R.
\<close>

theorem case_folding_both_sides:
  "parseText False t text = parseText True t (map tolower text)
   \<and> addPath False key current t = addPath True (map tolower key) current t
   \<and> scan_after False (addStrings False [''Her''] keyword_trie_init) ''usheRs'' = Some [(''Her'', 2, 4)]"
proof -
  have "scan_after False (addStrings False [''Her''] keyword_trie_init) ''usheRs'' = Some [(''Her'', 2, 4)]"
    by code_simp
  then show ?thesis by (simp add: parseText_def parseLoop_fold addPath_fold)
qed

subsection \<open>Duplicates\<close>

lemma find_Some_append:
  assumes "find P xs = Some x" "\<And>y. y \<in> set xs \<Longrightarrow> Q y = P y"
  shows "find Q (xs @ ys) = Some x"
  using assms by (induction xs) (auto split: if_splits)

lemma step_childWith:
  assumes st: "step cs t t'" and i: "nodes_ok (trieNodes t)" and c: "current < length (trieNodes t)"
    and w: "childWith (trieNodes t) current character = Some child"
  shows "childWith (trieNodes t') current character = Some child"
proof -
  let ?ns = "trieNodes t"
  from i have s: "shape ?ns" by (simp add: nodes_ok_def)
  have b: "y < length ?ns" if "y \<in> set (children (?ns ! current))" for y
    using shapeD(4) [OF s c that] by simp
  from st show ?thesis
  proof (cases rule: step.cases)
    case (Grow cur ch)
    let ?g = "grow ?ns cur ch"
    have "find (\<lambda>x. cN (?g ! x) = character)
        (children (?ns ! current) @ (if current = cur then [length ?ns] else [])) = Some child"
      by (rule find_Some_append [OF w [unfolded childWith_def]])
        (simp add: grow_fields_old(3) [OF Grow(2) b])
    with c Grow(2) show ?thesis unfolding Grow(1)
      by (cases "current = cur") (simp_all add: childWith_def grow_fields_old(7))
  next
    case (Mark cur key)
    from w show ?thesis unfolding Mark(1) by (simp add: childWith_def set_id_fields [OF Mark(2)])
  next
    case (Link temp ns')
    from processNode_ok [OF i Link(2)] Link(3) have e: "skeleton ns' = skeleton ?ns" by auto
    have "find (\<lambda>x. cN (ns' ! x) = character) (children (?ns ! current) @ []) = Some child"
      by (rule find_Some_append [OF w [unfolded childWith_def]])
        (simp add: skeleton_nth(4) [OF e b])
    then show ?thesis unfolding Link(1) by (simp add: childWith_def skeleton_nth(1) [OF e c])
  qed
qed

lemma steps_childWith:
  assumes "(step cs)\<^sup>*\<^sup>* t t'" "nodes_ok (trieNodes t)" "current < length (trieNodes t)"
    "childWith (trieNodes t) current character = Some child"
  shows "childWith (trieNodes t') current character = Some child"
  using assms
proof (induction rule: rtranclp_induct)
  case base
  then show ?case by simp
next
  case (step y z)
  from steps_nodes_ok [OF step(1) step(4)] step(5)
  have "nodes_ok (trieNodes y)" "current < length (trieNodes y)" by simp_all
  from step_childWith [OF step(2) this step(3) [OF step(4,5,6)]] show ?case .
qed

lemma step_idN:
  assumes st: "step cs t t'" and i: "nodes_ok (trieNodes t)" and k: "k < length (trieNodes t)"
    and d: "idN (trieNodes t ! k) \<noteq> - 1"
  shows "idN (trieNodes t' ! k) = idN (trieNodes t ! k)"
  using st
proof (cases rule: step.cases)
  case (Grow cur ch)
  then show ?thesis by (simp add: grow_fields_old(4) [OF Grow(2) k])
next
  case (Mark cur key)
  with d have "k \<noteq> cur" by auto
  with Mark show ?thesis by (simp add: set_id_fields [OF Mark(2)])
next
  case (Link temp ns')
  from processNode_ok [OF i Link(2)] Link(3) have e: "skeleton ns' = skeleton (trieNodes t)" by auto
  from skeleton_nth(5) [OF e k] Link(1) show ?thesis by simp
qed

lemma step_keywords:
  assumes "step cs t t'"
  shows "\<exists>ks. keywordsT t' = keywordsT t @ ks"
  using assms by (cases rule: step.cases) auto

lemma findPath_bound:
  assumes "shape ns" "current < length ns" "findPath ns current key = Some node"
  shows "node < length ns"
  using assms
proof (induction key arbitrary: current)
  case Nil
  then show ?case by simp
next
  case (Cons character key)
  from Cons.prems(3) obtain child where w: "childWith ns current character = Some child"
    "findPath ns child key = Some node" by (auto split: option.splits)
  from shape_child(2) [OF Cons.prems(1,2) childWith_Some(1) [OF w(1)]] have "child < length ns" .
  from Cons.IH [OF Cons.prems(1) this w(2)] show ?case .
qed

lemma step_findPath:
  assumes st: "step cs t t'" and i: "nodes_ok (trieNodes t)" and c: "current < length (trieNodes t)"
    and p: "findPath (trieNodes t) current key = Some node"
  shows "findPath (trieNodes t') current key = Some node"
  using c p
proof (induction key arbitrary: current)
  case Nil
  then show ?case by simp
next
  case (Cons character key)
  from i have s: "shape (trieNodes t)" by (simp add: nodes_ok_def)
  from Cons.prems(2) obtain child where w: "childWith (trieNodes t) current character = Some child"
    "findPath (trieNodes t) child key = Some node" by (auto split: option.splits)
  from shape_child(2) [OF s Cons.prems(1) childWith_Some(1) [OF w(1)]]
  have "child < length (trieNodes t)" .
  from Cons.IH [OF this w(2)] step_childWith [OF st i Cons.prems(1) w(1)] show ?case by simp
qed

lemma steps_inserted:
  assumes "(step cs)\<^sup>*\<^sup>* t t'" "nodes_ok (trieNodes t)"
    "findPath (trieNodes t) 0 key = Some node" "idN (trieNodes t ! node) \<noteq> - 1"
  shows "findPath (trieNodes t') 0 key = Some node \<and> idN (trieNodes t' ! node) = idN (trieNodes t ! node)
    \<and> (\<exists>ks. keywordsT t' = keywordsT t @ ks)"
  using assms
proof (induction rule: rtranclp_induct)
  case base
  then show ?case by simp
next
  case (step y z)
  from steps_nodes_ok [OF step(1) step(4)] have iy: "nodes_ok (trieNodes y)" by simp
  then have sy: "shape (trieNodes y)" by (simp add: nodes_ok_def)
  from step(3) [OF step(4,5,6)] have a: "findPath (trieNodes y) 0 key = Some node"
    "idN (trieNodes y ! node) = idN (trieNodes t ! node)"
    and ks: "\<exists>ks. keywordsT y = keywordsT t @ ks" by simp_all
  from shapeD(1) [OF sy] have z: "0 < length (trieNodes y)" .
  from findPath_bound [OF sy z a(1)] have n: "node < length (trieNodes y)" .
  from a(2) step(6) have "idN (trieNodes y ! node) \<noteq> - 1" by simp
  from step_idN [OF step(2) iy n this] a(2) step_findPath [OF step(2) iy z a(1)]
    step_keywords [OF step(2)] ks
  show ?case by auto
qed

lemma findPath_addPath:
  assumes "findPath (trieNodes t) current (map (fold_case cs) key) = Some node"
  shows "addPath cs key current t = (node, t)"
  using assms
proof (induction key arbitrary: current)
  case Nil
  then show ?case by simp
next
  case (Cons character key)
  from Cons.prems obtain child where w: "childWith (trieNodes t) current (fold_case cs character) = Some child"
    "findPath (trieNodes t) child (map (fold_case cs) key) = Some node" by (auto split: option.splits)
  from addChild_found [OF w(1)] Cons.IH [OF w(2)] show ?case by simp
qed

lemma addPath_findPath:
  assumes "nodes_ok (trieNodes t)" "current < length (trieNodes t)"
    "addPath cs key current t = (node, t')"
  shows "findPath (trieNodes t') current (map (fold_case cs) key) = Some node"
  using assms
proof (induction key arbitrary: current t)
  case Nil
  then show ?case by simp
next
  case (Cons character key)
  obtain child t1 where a: "addChild current (fold_case cs character) t = (child, t1)"
    by (cases "addChild current (fold_case cs character) t") auto
  note ok = addChild_ok [OF Cons.prems(1,2) a]
  note st = addChild_steps [OF Cons.prems(1,2) a]
  from Cons.prems(3) a have r: "addPath cs key child t1 = (node, t')" by simp
  from ok(5) Cons.prems(2) have c1: "current < length (trieNodes t1)" by simp
  from addPath_steps [OF ok(1) ok(2) r] have "(step cs)\<^sup>*\<^sup>* t1 t'" by simp
  from steps_childWith [OF this ok(1) c1 st(3)]
  have w: "childWith (trieNodes t') current (fold_case cs character) = Some child" .
  from Cons.IH [OF ok(1) ok(2) r] w show ?case by simp
qed

lemma addString_inserted:
  assumes i: "nodes_ok (trieNodes t)" and k: "key \<noteq> []"
    and a: "addString cs key addFailure t = Some (None, t')"
  shows "\<exists>node. findPath (trieNodes t') 0 (map (fold_case cs) key) = Some node
    \<and> idN (trieNodes t' ! node) = int (length (keywordsT t))
    \<and> keywordsT t' = keywordsT t @ [Result_stub key (length (keywordsT t))]"
proof -
  from i have z: "root < length (trieNodes t)" using shapeD(1) by (simp add: nodes_ok_def root_def)
  obtain current t1 where p: "addPath cs key root t = (current, t1)"
    by (cases "addPath cs key root t") auto
  note ok = addPath_ok [OF i z p]
  from ok have i1: "nodes_ok (trieNodes t1)" and c: "current < length (trieNodes t1)"
    and kw: "keywordsT t1 = keywordsT t" by simp_all
  note fp = addPath_findPath [OF i z p]
  let ?t2 = "t1\<lparr>trieNodes := (trieNodes t1)[current := (trieNodes t1 ! current)\<lparr>idN := int (length (keywordsT t1))\<rparr>],
               keywordsT := keywordsT t1 @ [Result_stub key (length (keywordsT t1))]\<rparr>"
  from a k p have nd: "idN (trieNodes t1 ! current) = - 1"
    by (auto simp: addString_def split: if_splits)
  have f2: "findPath (trieNodes ?t2) 0 (map (fold_case cs) key) = Some current"
  proof -
    have "childWith ((trieNodes t1)[current := (trieNodes t1 ! current)\<lparr>idN := v\<rparr>]) x ch
      = childWith (trieNodes t1) x ch" for x ch v
      by (simp add: childWith_def set_id_fields [OF c])
    then have "findPath ((trieNodes t1)[current := (trieNodes t1 ! current)\<lparr>idN := v\<rparr>]) x ks
      = findPath (trieNodes t1) x ks" for x ks v
      by (induction ks arbitrary: x) (simp_all split: option.split)
    with fp show ?thesis by (simp add: root_def)
  qed
  have id2: "idN (trieNodes ?t2 ! current) = int (length (keywordsT t))"
    using c kw by simp
  have i2: "nodes_ok (trieNodes ?t2)" using set_id_nodes_ok [OF i1 c] by simp
  show ?thesis
  proof (cases addFailure)
    case False
    with a k p nd have "t' = ?t2" by (simp add: addString_def Let_def)
    with f2 id2 kw show ?thesis by simp
  next
    case True
    with a k p nd have l: "addFailureLinks ?t2 = Some t'"
      by (simp add: addString_def Let_def split: option.splits)
    from addFailureLinks_steps [OF i2, of cs] l have st: "(step cs)\<^sup>*\<^sup>* ?t2 t'" by simp
    have "idN (trieNodes ?t2 ! current) \<noteq> - 1" using id2 by simp
    from steps_inserted [OF st i2 f2 this] id2 addFailureLinks_keywords [OF l] kw
    show ?thesis by simp
  qed
qed

lemma calls_steps_eq:
  assumes "nodes_ok (trieNodes t)" "calls cs xs t = Some t'"
  shows "(step cs)\<^sup>*\<^sup>* t t'"
  using calls_steps [OF assms(1), of cs xs] assms(2) by simp

text \<open>
  C4. On a trie built by any calls, a non-empty keyword is inserted successfully; after
  any further calls, the insertion of a keyword with the same case-normalised form
  throws the duplicate error and returns the trie as it was (nodes, keyword list and
  so the next identifier), and the keyword list still holds the first keyword under the
  identifier it received.
\<close>

theorem duplicate_rejected_unchanged:
  assumes r: "calls cs xs keyword_trie_init = Some t"
    and a: "addString cs key addFailure t = Some (None, t1)" and k: "key \<noteq> []"
    and r2: "calls cs ys t1 = Some t2"
    and e: "map (fold_case cs) key' = map (fold_case cs) key"
  shows "addString cs key' addFailure' t2 = Some (Some DuplicateKeywordError, t2)
    \<and> keywordsT t2 ! length (keywordsT t) = Result_stub key (length (keywordsT t))"
proof -
  from calls_init [of cs xs] r have i: "nodes_ok (trieNodes t)" by simp
  from addString_steps [OF i, of cs key addFailure] a have "(step cs)\<^sup>*\<^sup>* t t1" by simp
  from steps_nodes_ok [OF this i] have i1: "nodes_ok (trieNodes t1)" by simp
  from addString_inserted [OF i k a] obtain node where
    n: "findPath (trieNodes t1) 0 (map (fold_case cs) key) = Some node"
    "idN (trieNodes t1 ! node) = int (length (keywordsT t))"
    "keywordsT t1 = keywordsT t @ [Result_stub key (length (keywordsT t))]" by blast
  from n(2) have "idN (trieNodes t1 ! node) \<noteq> - 1" by simp
  from steps_inserted [OF calls_steps_eq [OF i1 r2] i1 n(1) this] obtain ks where
    m: "findPath (trieNodes t2) 0 (map (fold_case cs) key) = Some node"
    "idN (trieNodes t2 ! node) = idN (trieNodes t1 ! node)" "keywordsT t2 = keywordsT t1 @ ks" by blast
  from k e have k': "key' \<noteq> []" by auto
  from m(1) e have "findPath (trieNodes t2) root (map (fold_case cs) key') = Some node"
    by (simp add: root_def)
  from findPath_addPath [OF this] m(2) n(2) k'
  have "addString cs key' addFailure' t2 = Some (Some DuplicateKeywordError, t2)"
    by (simp add: addString_def)
  moreover from m(3) n(3) have "keywordsT t2 ! length (keywordsT t) = Result_stub key (length (keywordsT t))"
    by (simp add: nth_append)
  ultimately show ?thesis by simp
qed

theorem duplicate_rejected_unchanged_witness:
  "addString False ''hER'' True her_she_trie = Some (Some DuplicateKeywordError, her_she_trie)
   \<and> keywordsT her_she_trie ! 0 = Result_stub ''Her'' 0"
proof -
  have 1: "calls False [] keyword_trie_init = Some keyword_trie_init" by simp
  have 2: "addString False ''Her'' True keyword_trie_init = Some (None, her_trie)"
    unfolding her_trie_def by code_simp
  have 3: "''Her'' \<noteq> []" by simp
  have 4: "calls False [AddVector [''she'', ''he'']] her_trie = Some her_she_trie"
    unfolding her_she_trie_def her_trie_def by code_simp
  have 5: "map (fold_case False) ''hER'' = map (fold_case False) ''Her''" by code_simp
  from duplicate_rejected_unchanged [OF 1 2 3 4 5, of True] show ?thesis
    by (simp add: keyword_trie_init_def)
qed

section \<open>The scan reports occurrences of keywords\<close>

lemma ids_okD:
  assumes "ids_ok cs t" "k < length (trieNodes t)" "idN (trieNodes t ! k) \<noteq> - 1"
  shows "0 \<le> idN (trieNodes t ! k)" "nat (idN (trieNodes t ! k)) < length (keywordsT t)"
    "map (fold_case cs) (keyword (keywordsT t ! nat (idN (trieNodes t ! k)))) = pathOf (trieNodes t) k"
  using assms unfolding ids_ok_def by blast+

lemma ids_okI:
  assumes "\<And>k. k < length (trieNodes t) \<Longrightarrow> idN (trieNodes t ! k) \<noteq> - 1 \<Longrightarrow>
    0 \<le> idN (trieNodes t ! k) \<and> nat (idN (trieNodes t ! k)) < length (keywordsT t) \<and>
    map (fold_case cs) (keyword (keywordsT t ! nat (idN (trieNodes t ! k)))) = pathOf (trieNodes t) k"
  shows "ids_ok cs t"
  unfolding ids_ok_def using assms by blast

lemma suffix_okD:
  assumes "suffix_ok ns" "k < length ns"
  shows "suffix (pathOf ns (failure (ns ! k))) (pathOf ns k)"
    "suffix (pathOf ns (outputN (ns ! k))) (pathOf ns k)"
    "outputN (ns ! k) = 0 \<or> idN (ns ! outputN (ns ! k)) \<noteq> - 1"
  using assms unfolding suffix_ok_def by blast+

lemma suffix_okI:
  assumes "\<And>k. k < length ns \<Longrightarrow> suffix (pathOf ns (failure (ns ! k))) (pathOf ns k)"
    "\<And>k. k < length ns \<Longrightarrow> suffix (pathOf ns (outputN (ns ! k))) (pathOf ns k)"
    "\<And>k. k < length ns \<Longrightarrow> outputN (ns ! k) = 0 \<or> idN (ns ! outputN (ns ! k)) \<noteq> - 1"
  shows "suffix_ok ns"
  unfolding suffix_ok_def using assms by blast

lemma processNode_result:
  assumes i: "nodes_ok ns" and k: "temp < length ns" and p: "processNode temp ns = Some ns'"
  obtains out where "outputWalk ns (newFailure ns temp) = Some out"
    "ns' = ns[temp := (ns ! temp)\<lparr>failure := newFailure ns temp, outputN := out\<rparr>]"
proof -
  from i have s: "shape ns" and f: "fail_ok ns" by (simp_all add: nodes_ok_def)
  from p show ?thesis
    unfolding processNode_simp [OF s f k] using that by (auto split: option.splits)
qed

lemma step_ids_ok:
  assumes st: "step cs t t'" and i: "nodes_ok (trieNodes t)" and d: "ids_ok cs t"
  shows "ids_ok cs t'"
proof -
  let ?ns = "trieNodes t"
  from i have s: "shape ?ns" by (simp add: nodes_ok_def)
  from st show ?thesis
  proof (cases rule: step.cases)
    case (Grow cur ch)
    show ?thesis
    proof (rule ids_okI)
      fix k assume k: "k < length (trieNodes t')" "idN (trieNodes t' ! k) \<noteq> - 1"
      from k Grow(1) grow_fields_new(4) [OF Grow(2), of ch] have kn: "k < length ?ns"
        by (cases "k = length ?ns") auto
      from k(2) Grow(1) grow_fields_old(4) [OF Grow(2) kn, of ch] have "idN (?ns ! k) \<noteq> - 1" by simp
      from ids_okD [OF d kn this] grow_fields_old(4) [OF Grow(2) kn, of ch]
        pathOf_grow_old [OF s Grow(2) kn, of ch] Grow(1)
      show "0 \<le> idN (trieNodes t' ! k) \<and> nat (idN (trieNodes t' ! k)) < length (keywordsT t') \<and>
        map (fold_case cs) (keyword (keywordsT t' ! nat (idN (trieNodes t' ! k)))) = pathOf (trieNodes t') k"
        by simp
    qed
  next
    case (Mark cur key)
    note sf = set_id_fields [OF Mark(2)]
    show ?thesis
    proof (rule ids_okI)
      fix k assume k: "k < length (trieNodes t')" "idN (trieNodes t' ! k) \<noteq> - 1"
      from k(1) Mark(1) have kn: "k < length ?ns" by simp
      have p: "pathOf (trieNodes t') k = pathOf ?ns k"
        unfolding Mark(1) using pathOf_set_id [OF s Mark(2) kn] by simp
      show "0 \<le> idN (trieNodes t' ! k) \<and> nat (idN (trieNodes t' ! k)) < length (keywordsT t') \<and>
        map (fold_case cs) (keyword (keywordsT t' ! nat (idN (trieNodes t' ! k)))) = pathOf (trieNodes t') k"
      proof (cases "k = cur")
        case True
        with Mark(5) p show ?thesis unfolding Mark(1) by (simp add: sf Result_stub_def)
      next
        case False
        with k(2) Mark(1) have "idN (?ns ! k) \<noteq> - 1" by (simp add: sf)
        from ids_okD [OF d kn this] False p show ?thesis unfolding Mark(1) by (simp add: sf nth_append)
      qed
    qed
  next
    case (Link temp ns')
    from processNode_ok [OF i Link(2)] Link(3) have e: "skeleton ns' = skeleton ?ns" by auto
    show ?thesis
    proof (rule ids_okI)
      fix k assume k: "k < length (trieNodes t')" "idN (trieNodes t' ! k) \<noteq> - 1"
      from k(1) Link(1) skeleton_length [OF e] have kn: "k < length ?ns" by simp
      from k(2) Link(1) skeleton_nth(5) [OF e kn] have "idN (?ns ! k) \<noteq> - 1" by simp
      from ids_okD [OF d kn this] skeleton_nth(5) [OF e kn] pathOf_skeleton [OF e s kn] Link(1)
      show "0 \<le> idN (trieNodes t' ! k) \<and> nat (idN (trieNodes t' ! k)) < length (keywordsT t') \<and>
        map (fold_case cs) (keyword (keywordsT t' ! nat (idN (trieNodes t' ! k)))) = pathOf (trieNodes t') k"
        by simp
    qed
  qed
qed

lemma outputWalk_suffix:
  assumes s: "shape ns" and f: "fail_ok ns" and x: "suffix_ok ns" and k: "k < length ns"
    and w: "outputWalk ns k = Some out"
  shows "suffix (pathOf ns out) (pathOf ns k)"
  using s f k w
proof (induction k rule: fail_induct)
  case (step k)
  show ?case
  proof (cases "0 < k \<and> idN (ns ! k) = - 1")
    case False
    with step(3) have "out = k" by (cases "0 < k") (auto simp: outputWalk_step)
    then show ?thesis by simp
  next
    case True
    with step(3) have "outputWalk ns (failure (ns ! k)) = Some out" by (simp add: outputWalk_step)
    from step(2) [OF _ this] True have "suffix (pathOf ns out) (pathOf ns (failure (ns ! k)))" by simp
    from this suffix_okD(1) [OF x step(1)] show ?thesis by (rule suffix_order.trans)
  qed
qed

lemma newFailure_suffix:
  assumes s: "shape ns" and f: "fail_ok ns" and x: "suffix_ok ns" and k: "temp < length ns"
  shows "suffix (pathOf ns (newFailure ns temp)) (pathOf ns temp)"
proof (cases "depth (ns ! failure (ns ! temp)) < depth (ns ! temp) - 1")
  case False
  then have "newFailure ns temp = failure (ns ! temp)" by (simp add: newFailure_def)
  with suffix_okD(1) [OF x k] show ?thesis by simp
next
  case True
  note d = shapeD [OF s]
  note fd = fail_okD [OF f]
  show ?thesis
  proof (cases "failTarget ns temp")
    case None
    with True have "newFailure ns temp = failure (ns ! temp)" by (simp add: newFailure_def)
    with suffix_okD(1) [OF x k] show ?thesis by simp
  next
    case (Some fc)
    with True have e: "newFailure ns temp = fc" by (simp add: newFailure_def)
    from shape_depth_nonneg [OF s fd(2) [OF k]] True have d2: "2 \<le> depth (ns ! temp)" by simp
    with d(2) have t0: "0 < temp" by (cases "temp = 0") auto
    let ?p = "parent (ns ! temp)"
    from d(5) [OF k t0] k have p: "?p < length ns" by simp
    note F = fd(2) [OF p]
    note ft = failTarget_Some [OF Some]
    note c = shape_child [OF s F ft(1)]
    from c(1) have "0 < fc" by simp
    from pathOf_nonroot [OF s c(2) this] c(3) ft(2)
    have 1: "pathOf ns fc = pathOf ns (failure (ns ! ?p)) @ [cN (ns ! temp)]" by simp
    have 2: "pathOf ns temp = pathOf ns ?p @ [cN (ns ! temp)]" by (rule pathOf_nonroot [OF s k t0])
    from suffix_okD(1) [OF x p] show ?thesis unfolding e 1 2 by simp
  qed
qed

lemma step_suffix_ok:
  assumes st: "step cs t t'" and i: "nodes_ok (trieNodes t)" and x: "suffix_ok (trieNodes t)"
  shows "suffix_ok (trieNodes t')"
proof -
  let ?ns = "trieNodes t"
  from i have s: "shape ?ns" and f: "fail_ok ?ns" and o: "out_ok ?ns" by (simp_all add: nodes_ok_def)
  note fd = fail_okD [OF f]
  note od = out_okD [OF o]
  note xd = suffix_okD [OF x]
  from st show ?thesis
  proof (cases rule: step.cases)
    case (Grow cur ch)
    let ?g = "grow ?ns cur ch"
    note go = grow_fields_old [OF Grow(2), of _ ch]
    note gn = grow_fields_new [OF Grow(2), of ch]
    have r: "pathOf ?g 0 = []" by (rule pathOf_root [OF grow_shape [OF s Grow(2)]])
    have po: "pathOf ?g k = pathOf ?ns k" if "k < length ?ns" for k
      by (rule pathOf_grow_old [OF s Grow(2) that])
    have "suffix_ok ?g"
    proof (rule suffix_okI)
      fix k assume "k < length ?g"
      then consider (old) "k < length ?ns" | (new) "k = length ?ns" by fastforce
      then show "suffix (pathOf ?g (failure (?g ! k))) (pathOf ?g k)"
      proof cases
        case old
        with xd(1) [OF old] po [OF old] po [OF fd(2) [OF old]] go(5) [OF old] show ?thesis by simp
      next
        case new
        with gn(5) r show ?thesis by simp
      qed
    next
      fix k assume "k < length ?g"
      then consider (old) "k < length ?ns" | (new) "k = length ?ns" by fastforce
      then show "suffix (pathOf ?g (outputN (?g ! k))) (pathOf ?g k)"
      proof cases
        case old
        with xd(2) [OF old] po [OF old] po [OF od(2) [OF old]] go(6) [OF old] show ?thesis by simp
      next
        case new
        with gn(6) r show ?thesis by simp
      qed
    next
      fix k assume "k < length ?g"
      then consider (old) "k < length ?ns" | (new) "k = length ?ns" by fastforce
      then show "outputN (?g ! k) = 0 \<or> idN (?g ! outputN (?g ! k)) \<noteq> - 1"
      proof cases
        case old
        with xd(3) [OF old] go(6) [OF old] go(4) [OF od(2) [OF old]] show ?thesis by simp
      next
        case new
        with gn(6) show ?thesis by simp
      qed
    qed
    with Grow(1) show ?thesis by simp
  next
    case (Mark cur key)
    let ?m = "?ns[cur := (?ns ! cur)\<lparr>idN := int (length (keywordsT t))\<rparr>]"
    note sf = set_id_fields [OF Mark(2)]
    have po: "pathOf ?m k = pathOf ?ns k" if "k < length ?ns" for k
      by (rule pathOf_set_id [OF s Mark(2) that])
    have "suffix_ok ?m"
    proof (rule suffix_okI)
      fix k assume "k < length ?m"
      then have k: "k < length ?ns" by simp
      from xd(1) [OF k] po [OF k] po [OF fd(2) [OF k]]
      show "suffix (pathOf ?m (failure (?m ! k))) (pathOf ?m k)" by (simp add: sf)
      from xd(2) [OF k] po [OF k] po [OF od(2) [OF k]]
      show "suffix (pathOf ?m (outputN (?m ! k))) (pathOf ?m k)" by (simp add: sf)
      from xd(3) [OF k]
      show "outputN (?m ! k) = 0 \<or> idN (?m ! outputN (?m ! k)) \<noteq> - 1" by (auto simp: sf)
    qed
    with Mark(1) show ?thesis by simp
  next
    case (Link temp ns')
    from processNode_result [OF i Link(2,3)] obtain out where
      w: "outputWalk ?ns (newFailure ?ns temp) = Some out"
      and e: "ns' = ?ns[temp := (?ns ! temp)\<lparr>failure := newFailure ?ns temp, outputN := out\<rparr>]" .
    let ?F = "newFailure ?ns temp"
    note nf = newFailure_ok [OF s f Link(2)]
    note sf = set_links_fields [OF Link(2)]
    from outputWalk_total [OF s f nf(1)] w have ob: "out < length ?ns" "out = 0 \<or> idN (?ns ! out) \<noteq> - 1"
      by simp_all
    have sk: "skeleton ns' = skeleton ?ns" unfolding e by simp
    have po: "pathOf ns' k = pathOf ?ns k" if "k < length ?ns" for k
      by (rule pathOf_skeleton [OF sk s that])
    have sF: "suffix (pathOf ?ns ?F) (pathOf ?ns temp)" by (rule newFailure_suffix [OF s f x Link(2)])
    have "suffix (pathOf ?ns out) (pathOf ?ns ?F)" by (rule outputWalk_suffix [OF s f x nf(1) w])
    from this sF have sO: "suffix (pathOf ?ns out) (pathOf ?ns temp)" by (rule suffix_order.trans)
    have F: "failure (ns' ! j) = (if j = temp then ?F else failure (?ns ! j))" for j
      unfolding e by (rule sf(2))
    have O: "outputN (ns' ! j) = (if j = temp then out else outputN (?ns ! j))" for j
      unfolding e by (rule sf(3))
    have I: "idN (ns' ! j) = idN (?ns ! j)" for j unfolding e by (rule sf(5))
    have "suffix_ok ns'"
    proof (rule suffix_okI)
      fix k assume "k < length ns'"
      with skeleton_length [OF sk] have k: "k < length ?ns" by simp
      show "suffix (pathOf ns' (failure (ns' ! k))) (pathOf ns' k)"
      proof (cases "k = temp")
        case True
        with sF po [OF k] po [OF nf(1)] show ?thesis unfolding F by simp
      next
        case False
        with xd(1) [OF k] po [OF k] po [OF fd(2) [OF k]] show ?thesis unfolding F by simp
      qed
      show "suffix (pathOf ns' (outputN (ns' ! k))) (pathOf ns' k)"
      proof (cases "k = temp")
        case True
        with sO po [OF k] po [OF ob(1)] show ?thesis unfolding O by simp
      next
        case False
        with xd(2) [OF k] po [OF k] po [OF od(2) [OF k]] show ?thesis unfolding O by simp
      qed
      show "outputN (ns' ! k) = 0 \<or> idN (ns' ! outputN (ns' ! k)) \<noteq> - 1"
      proof (cases "k = temp")
        case True
        with ob(2) show ?thesis unfolding O I by simp
      next
        case False
        with xd(3) [OF k] show ?thesis unfolding O I by simp
      qed
    qed
    with Link(1) show ?thesis by simp
  qed
qed

lemma steps_trie_ok:
  assumes "(step cs)\<^sup>*\<^sup>* t t'" "trie_ok cs t"
  shows "trie_ok cs t'"
  using assms
proof (induction rule: rtranclp_induct)
  case base
  then show ?case by simp
next
  case (step y z)
  from step(3) [OF step(4)] have y: "nodes_ok (trieNodes y)" "ids_ok cs y" "suffix_ok (trieNodes y)"
    by (simp_all add: trie_ok_def)
  from step_nodes_ok(1) [OF step(2) y(1)] step_ids_ok [OF step(2) y(1,2)]
    step_suffix_ok [OF step(2) y(1,3)]
  show ?case by (simp add: trie_ok_def)
qed

lemma init_trie_ok: "trie_ok cs keyword_trie_init"
proof -
  have "ids_ok cs keyword_trie_init"
    by (rule ids_okI) (simp add: keyword_trie_init_def rootNode_def)
  moreover have "suffix_ok [rootNode]"
    by (rule suffix_okI) (simp_all add: rootNode_def root_def)
  ultimately show ?thesis using init_nodes_ok by (simp add: trie_ok_def keyword_trie_init_def)
qed

lemma calls_trie_ok:
  "\<exists>t. calls cs xs keyword_trie_init = Some t \<and> trie_ok cs t"
  using calls_init [of cs xs] steps_trie_ok [OF _ init_trie_ok, of cs] by blast

subsection \<open>The scan reports occurrences only\<close>

lemma child_path:
  assumes s: "shape ns" and k: "k < length ns" and w: "childWith ns k ch = Some c"
  shows "c < length ns" "pathOf ns c = pathOf ns k @ [ch]"
proof -
  note cw = childWith_Some [OF w]
  note sc = shape_child [OF s k cw(1)]
  show "c < length ns" by (rule sc(2))
  from sc(1) have "0 < c" by simp
  from pathOf_nonroot [OF s sc(2) this] sc(3) cw(2) show "pathOf ns c = pathOf ns k @ [ch]" by simp
qed

lemma traverseLoop_root:
  "traverseLoop ns ch 0 = (case childWith ns 0 ch of Some rc \<Rightarrow> Some rc | None \<Rightarrow> Some 0)"
  by (subst traverseLoop.simps) (simp add: root_def split: option.split)

lemma traverseLoop_step:
  "0 < k \<Longrightarrow> traverseLoop ns ch k
     = (case childWith ns k ch of Some fc \<Rightarrow> Some fc | None \<Rightarrow> traverseLoop ns ch (failure (ns ! k)))"
  by (subst traverseLoop.simps) (simp add: root_def)

lemma traverseLoop_ok:
  assumes s: "shape ns" and f: "fail_ok ns" and x: "suffix_ok ns" and k: "k < length ns"
    and w: "suffix (pathOf ns k) w"
  shows "\<exists>r. traverseLoop ns ch k = Some r \<and> r < length ns \<and> suffix (pathOf ns r) (w @ [ch])"
  using s f k w
proof (induction k rule: fail_induct)
  case (step k)
  show ?case
  proof (cases "childWith ns k ch")
    case (Some c)
    note cp = child_path [OF s step(1) Some]
    from step(3) have "suffix (pathOf ns k @ [ch]) (w @ [ch])" by simp
    with cp Some show ?thesis by (cases "0 < k") (simp_all add: traverseLoop_root traverseLoop_step)
  next
    case None
    show ?thesis
    proof (cases "0 < k")
      case False
      with pathOf_root [OF s] None step(1) show ?thesis by (simp add: traverseLoop_root)
    next
      case True
      from suffix_okD(1) [OF x step(1)] step(3) have "suffix (pathOf ns (failure (ns ! k))) w"
        by (rule suffix_order.trans)
      from step(2) [OF True this] None True show ?thesis by (simp add: traverseLoop_step)
    qed
  qed
qed

lemma findChild_ok:
  assumes s: "shape ns" and f: "fail_ok ns" and x: "suffix_ok ns" and k: "current < length ns"
    and w: "suffix (pathOf ns current) w"
  shows "\<exists>r. findChild ns current ch = Some r \<and> r < length ns \<and> suffix (pathOf ns r) (w @ [ch])"
proof (cases "childWith ns current ch")
  case (Some c)
  note cp = child_path [OF s k Some]
  from w have "suffix (pathOf ns current @ [ch]) (w @ [ch])" by simp
  with cp Some show ?thesis by (simp add: findChild_def)
next
  case None
  from suffix_okD(1) [OF x k] w have "suffix (pathOf ns (failure (ns ! current))) w"
    by (rule suffix_order.trans)
  from traverseLoop_ok [OF s f x fail_okD(2) [OF f k] this, of ch] None
  show ?thesis by (simp add: findChild_def traverseFail_def)
qed

lemma out_induct [consumes 3, case_names step]:
  assumes s: "shape ns" and o: "out_ok ns" and k: "k < length ns"
    and step: "\<And>k. k < length ns \<Longrightarrow> (0 < k \<Longrightarrow> P (outputN (ns ! k))) \<Longrightarrow> P k"
  shows "P k"
  using k
proof (induction "nat (depth (ns ! k))" arbitrary: k rule: less_induct)
  case less
  show ?case
  proof (rule step [OF less.prems])
    assume p: "0 < k"
    note od = out_okD [OF o]
    have "depth (ns ! outputN (ns ! k)) < depth (ns ! k)" by (rule od(3) [OF less.prems p])
    moreover have "0 \<le> depth (ns ! outputN (ns ! k))"
      by (rule shape_depth_nonneg [OF s od(2) [OF less.prems]])
    ultimately have "nat (depth (ns ! outputN (ns ! k))) < nat (depth (ns ! k))" by simp
    then show "P (outputN (ns ! k))" using od(2) [OF less.prems] by (rule less.hyps)
  qed
qed

lemma outputLoop_root: "outputLoop t i 0 Results = Some (Inr Results)"
  by (subst outputLoop.simps) (simp add: root_def)

lemma outputLoop_step:
  "0 < temp \<Longrightarrow> outputLoop t i temp Results
     = (case keywords_at (keywordsT t) (idN (trieNodes t ! temp)) of
          Inl e \<Rightarrow> Some (Inl e)
        | Inr res \<Rightarrow> outputLoop t i (outputN (trieNodes t ! temp)) (Results @ [Result_at res i]))"
  by (subst outputLoop.simps) (simp add: root_def)

lemma match_ok_new:
  assumes d: "ids_ok cs t" and k: "k < length (trieNodes t)" and n: "idN (trieNodes t ! k) \<noteq> - 1"
    and w: "suffix (pathOf (trieNodes t) k) (map (fold_case cs) (take (Suc i) whole))"
    and i: "i < length whole"
  shows "\<exists>res. keywords_at (keywordsT t) (idN (trieNodes t ! k)) = Inr res
    \<and> match_ok cs (keywordsT t) whole (Result_at res i)"
proof -
  note dd = ids_okD [OF d k n]
  let ?res = "keywordsT t ! nat (idN (trieNodes t ! k))"
  have "keywords_at (keywordsT t) (idN (trieNodes t ! k)) = Inr ?res"
    using dd(1,2) by (simp add: keywords_at_def)
  moreover have "match_ok cs (keywordsT t) whole (Result_at ?res i)"
    unfolding match_ok_def using dd(2,3) w i by (simp add: Result_at_def)
  ultimately show ?thesis by blast
qed

lemma outputLoop_ok:
  assumes tk: "trie_ok cs t" and k: "temp < length (trieNodes t)"
    and v: "temp = 0 \<or> idN (trieNodes t ! temp) \<noteq> - 1"
    and w: "suffix (pathOf (trieNodes t) temp) (map (fold_case cs) (take (Suc i) whole))"
    and i: "i < length whole"
    and r: "\<forall>r\<in>set Results. match_ok cs (keywordsT t) whole r"
  shows "\<exists>rs. outputLoop t i temp Results = Some (Inr rs) \<and> (\<forall>r\<in>set rs. match_ok cs (keywordsT t) whole r)"
proof -
  let ?ns = "trieNodes t"
  from tk have s: "shape ?ns" and o: "out_ok ?ns" and d: "ids_ok cs t" and x: "suffix_ok ?ns"
    by (simp_all add: trie_ok_def nodes_ok_def)
  from s o k v w r show ?thesis
  proof (induction temp arbitrary: Results rule: out_induct)
    case (step temp)
    show ?case
    proof (cases "0 < temp")
      case False
      with step(5) show ?thesis by (simp add: outputLoop_root)
    next
      case True
      with step(3) have n: "idN (?ns ! temp) \<noteq> - 1" by simp
      from match_ok_new [OF d step(1) n step(4) i] obtain res where
        a: "keywords_at (keywordsT t) (idN (?ns ! temp)) = Inr res"
        "match_ok cs (keywordsT t) whole (Result_at res i)" by blast
      from suffix_okD(2) [OF x step(1)] step(4)
      have w': "suffix (pathOf ?ns (outputN (?ns ! temp))) (map (fold_case cs) (take (Suc i) whole))"
        by (rule suffix_order.trans)
      from step(5) a(2) have r': "\<forall>r\<in>set (Results @ [Result_at res i]). match_ok cs (keywordsT t) whole r"
        by simp
      from step(2) [OF True suffix_okD(3) [OF x step(1)] w' r'] a(1) True
      show ?thesis by (simp add: outputLoop_step)
    qed
  qed
qed

lemma parseStep_ok:
  assumes tk: "trie_ok cs t" and k: "current < length (trieNodes t)"
    and w: "suffix (pathOf (trieNodes t) current) (map (fold_case cs) pre)"
    and r: "\<forall>r\<in>set Results. match_ok cs (keywordsT t) (pre @ c # rest) r"
  shows "\<exists>current' Results'. parseStep cs t (length pre) c current Results = Some (Inr (current', Results'))
    \<and> current' < length (trieNodes t)
    \<and> suffix (pathOf (trieNodes t) current') (map (fold_case cs) (pre @ [c]))
    \<and> (\<forall>r\<in>set Results'. match_ok cs (keywordsT t) (pre @ c # rest) r)"
proof -
  let ?ns = "trieNodes t"
  let ?whole = "pre @ c # rest"
  let ?i = "length pre"
  from tk have s: "shape ?ns" and f: "fail_ok ?ns" and o: "out_ok ?ns" and d: "ids_ok cs t"
    and x: "suffix_ok ?ns" by (simp_all add: trie_ok_def nodes_ok_def)
  from findChild_ok [OF s f x k w, of "fold_case cs c"] obtain n where
    n: "findChild ?ns current (fold_case cs c) = Some n" "n < length ?ns"
    "suffix (pathOf ?ns n) (map (fold_case cs) pre @ [fold_case cs c])" by blast
  have tk': "take (Suc ?i) ?whole = pre @ [c]" by simp
  have i: "?i < length ?whole" by simp
  from n(3) have w': "suffix (pathOf ?ns n) (map (fold_case cs) (take (Suc ?i) ?whole))"
    unfolding tk' by simp
  have "\<exists>Results1. (if idN (?ns ! n) \<noteq> - 1
                 then (case keywords_at (keywordsT t) (idN (?ns ! n)) of
                         Inl e \<Rightarrow> Inl e
                       | Inr res \<Rightarrow> Inr (Results @ [Result_at res ?i]))
                 else Inr Results) = Inr Results1
     \<and> (\<forall>r\<in>set Results1. match_ok cs (keywordsT t) ?whole r)"
  proof (cases "idN (?ns ! n) \<noteq> - 1")
    case True
    from match_ok_new [OF d n(2) True w' i] r show ?thesis using True by auto
  next
    case False
    with r show ?thesis by simp
  qed
  then obtain Results1 where
    r1: "(if idN (?ns ! n) \<noteq> - 1
                 then (case keywords_at (keywordsT t) (idN (?ns ! n)) of
                         Inl e \<Rightarrow> Inl e
                       | Inr res \<Rightarrow> Inr (Results @ [Result_at res ?i]))
                 else Inr Results) = Inr Results1"
    and m1: "\<forall>r\<in>set Results1. match_ok cs (keywordsT t) ?whole r" by blast
  from suffix_okD(2) [OF x n(2)] w'
  have wo: "suffix (pathOf ?ns (outputN (?ns ! n))) (map (fold_case cs) (take (Suc ?i) ?whole))"
    by (rule suffix_order.trans)
  from outputLoop_ok [OF tk out_okD(2) [OF o n(2)] suffix_okD(3) [OF x n(2)] wo i m1]
  obtain rs where rs: "outputLoop t ?i (outputN (?ns ! n)) Results1 = Some (Inr rs)"
    "\<forall>r\<in>set rs. match_ok cs (keywordsT t) ?whole r" by blast
  have "parseStep cs t ?i c current Results = Some (Inr (n, rs))"
    unfolding parseStep_def n(1) using r1 rs(1) by simp
  with n(2,3) rs(2) show ?thesis by simp
qed

lemma parseLoop_ok:
  assumes "trie_ok cs t" "current < length (trieNodes t)"
    "suffix (pathOf (trieNodes t) current) (map (fold_case cs) pre)"
    "\<forall>r\<in>set Results. match_ok cs (keywordsT t) (pre @ rest) r"
  shows "\<exists>rs. parseLoop cs t (length pre) rest current Results = Some (Inr rs)
    \<and> (\<forall>r\<in>set rs. match_ok cs (keywordsT t) (pre @ rest) r)"
  using assms
proof (induction rest arbitrary: pre current Results)
  case Nil
  then show ?case by simp
next
  case (Cons c rest)
  from parseStep_ok [OF Cons.prems] obtain current' Results' where
    p: "parseStep cs t (length pre) c current Results = Some (Inr (current', Results'))"
    "current' < length (trieNodes t)"
    "suffix (pathOf (trieNodes t) current') (map (fold_case cs) (pre @ [c]))"
    "\<forall>r\<in>set Results'. match_ok cs (keywordsT t) (pre @ c # rest) r" by blast
  from p(4) have "\<forall>r\<in>set Results'. match_ok cs (keywordsT t) ((pre @ [c]) @ rest) r" by simp
  from Cons.IH [OF Cons.prems(1) p(2) p(3) this] p(1) show ?case by simp
qed

lemma parseText_ok:
  assumes tk: "trie_ok cs t"
  shows "\<exists>rs. parseText cs t whole = Some (Inr rs) \<and> (\<forall>r\<in>set rs. match_ok cs (keywordsT t) whole r)"
proof (cases "whole = []")
  case True
  then show ?thesis by (simp add: parseText_def)
next
  case False
  from tk have s: "shape (trieNodes t)" by (simp add: trie_ok_def nodes_ok_def)
  have "suffix (pathOf (trieNodes t) root) (map (fold_case cs) [])"
    using pathOf_root [OF s] by (simp add: root_def)
  from parseLoop_ok [OF tk _ this, of "[]" whole] shapeD(1) [OF s] False
  show ?thesis by (simp add: parseText_def root_def)
qed

lemma match_ok_exact:
  assumes m: "match_ok cs ks whole r" and l: "length whole < 2 ^ 64"
  shows "int (start r) = int (endR r) - int (length (keyword r)) + 1"
    "map (fold_case cs) (take (length (keyword r)) (drop (start r) whole)) = map (fold_case cs) (keyword r)"
proof -
  let ?e = "endR r" and ?L = "length (keyword r)"
  from m have e: "?e < length whole"
    and sx: "suffix (map (fold_case cs) (keyword r)) (map (fold_case cs) (take (Suc ?e) whole))"
    and st: "int (start r) = (int ?e - int ?L + 1) mod 2 ^ 64" by (simp_all add: match_ok_def)
  from suffix_length_le [OF sx] e have le: "?L \<le> Suc ?e" by simp
  from e l have "Suc ?e < 2 ^ 64" by simp
  then have "int (Suc ?e) < 2 ^ 64" by (simp only: of_nat_less_numeral_power_cancel_iff)
  with le have "(int ?e - int ?L + 1) mod 2 ^ 64 = int ?e - int ?L + 1"
    by (intro mod_pos_pos_trivial) simp_all
  with st show 1: "int (start r) = int ?e - int ?L + 1" by simp
  with le have s: "start r = Suc ?e - ?L" by simp
  from sx obtain zs where z: "map (fold_case cs) (take (Suc ?e) whole) = zs @ map (fold_case cs) (keyword r)"
    by (auto simp: suffix_def)
  from arg_cong [OF z, of length] e le have lz: "length zs = Suc ?e - ?L" by simp
  have "map (fold_case cs) (take ?L (drop (start r) whole))
    = drop (Suc ?e - ?L) (map (fold_case cs) (take (Suc ?e) whole))"
    unfolding s using le by (simp add: drop_map take_map drop_take)
  also have "\<dots> = map (fold_case cs) (keyword r)" unfolding z using lz by simp
  finally show "map (fold_case cs) (take ?L (drop (start r) whole)) = map (fold_case cs) (keyword r)" .
qed

text \<open>
  C5. On a trie built by any calls of the construction interface, the scan of a text
  shorter than \<open>2 ^ 64\<close> symbols returns without an exception, and every match record
  has a keyword of the keyword list, an end offset inside the text and
  \<open>start = end - length + 1\<close> without wrap-around; the symbols of the text from \<open>start\<close>
  to \<open>end\<close> are the keyword, up to case folding when the trie is not case sensitive.
\<close>

theorem matches_delimit_occurrences:
  assumes r: "calls cs xs keyword_trie_init = Some t" and l: "length whole < 2 ^ 64"
  shows "\<exists>rs. parseText cs t whole = Some (Inr rs) \<and>
    (\<forall>r\<in>set rs. endR r < length whole \<and> keyword r \<in> keyword ` set (keywordsT t)
       \<and> int (start r) = int (endR r) - int (length (keyword r)) + 1
       \<and> map (fold_case cs) (take (length (keyword r)) (drop (start r) whole))
           = map (fold_case cs) (keyword r))"
proof -
  from calls_trie_ok [of cs xs] r have tk: "trie_ok cs t" by simp
  from parseText_ok [OF tk, of whole] obtain rs where
    rs: "parseText cs t whole = Some (Inr rs)" "\<forall>r\<in>set rs. match_ok cs (keywordsT t) whole r" by blast
  have "endR r < length whole \<and> keyword r \<in> keyword ` set (keywordsT t)
       \<and> int (start r) = int (endR r) - int (length (keyword r)) + 1
       \<and> map (fold_case cs) (take (length (keyword r)) (drop (start r) whole))
           = map (fold_case cs) (keyword r)" if "r \<in> set rs" for r
  proof -
    from rs(2) that have m: "match_ok cs (keywordsT t) whole r" by simp
    from match_ok_exact [OF m l] m show ?thesis by (simp add: match_ok_def)
  qed
  with rs(1) show ?thesis by blast
qed

theorem matches_delimit_occurrences_witness:
  "parseText True ushers_trie ''ushers'' = Some (Inr ushers_results)
   \<and> length ushers_results = 4
   \<and> keyword (ushers_results ! 0) = ''she''
   \<and> int (start (ushers_results ! 0))
       = int (endR (ushers_results ! 0)) - int (length (keyword (ushers_results ! 0))) + 1
   \<and> take (length (keyword (ushers_results ! 0))) (drop (start (ushers_results ! 0)) ''ushers'')
       = keyword (ushers_results ! 0)"
proof -
  have 1: "calls True [AddSet {''hers'', ''his'', ''she'', ''he'', ''her''}] keyword_trie_init = Some ushers_trie"
    unfolding ushers_trie_def by code_simp
  have 2: "length ''ushers'' < 2 ^ 64" by simp
  have 3: "parseText True ushers_trie ''ushers'' = Some (Inr ushers_results)"
    unfolding ushers_results_def ushers_trie_def by code_simp
  have 4: "length ushers_results = 4" unfolding ushers_results_def ushers_trie_def by code_simp
  have 5: "keyword (ushers_results ! 0) = ''she''" unfolding ushers_results_def ushers_trie_def by code_simp
  from 4 have "ushers_results ! 0 \<in> set ushers_results" by (intro nth_mem) simp
  with matches_delimit_occurrences [OF 1 2] 3
  have "int (start (ushers_results ! 0))
       = int (endR (ushers_results ! 0)) - int (length (keyword (ushers_results ! 0))) + 1
    \<and> map (fold_case True) (take (length (keyword (ushers_results ! 0))) (drop (start (ushers_results ! 0)) ''ushers''))
       = map (fold_case True) (keyword (ushers_results ! 0))" by auto
  moreover have "map (fold_case True) w = w" for w by (induction w) (simp_all add: fold_case_def)
  ultimately have "int (start (ushers_results ! 0))
       = int (endR (ushers_results ! 0)) - int (length (keyword (ushers_results ! 0))) + 1
    \<and> take (length (keyword (ushers_results ! 0))) (drop (start (ushers_results ! 0)) ''ushers'')
       = keyword (ushers_results ! 0)" by simp
  with 3 4 5 show ?thesis by blast
qed

section \<open>Idempotence of the link construction\<close>

lemma set_links_same:
  "k < length ns \<Longrightarrow> ns[k := (ns ! k)\<lparr>failure := failure (ns ! k), outputN := outputN (ns ! k)\<rparr>] = ns"
  by (simp add: list_update_same_conv)

lemma settled_processNode:
  assumes i: "nodes_ok ns" and k: "k < length ns" and x: "settled ns k"
  shows "processNode k ns = Some ns"
proof -
  from i have s: "shape ns" and f: "fail_ok ns" by (simp_all add: nodes_ok_def)
  from x show ?thesis
    unfolding processNode_simp [OF s f k] settled_def by (simp add: set_links_same [OF k])
qed

lemma failTarget_cong:
  assumes "parent (ns' ! k) = parent (ns ! k)"
    "failure (ns' ! parent (ns ! k)) = failure (ns ! parent (ns ! k))"
    "children (ns' ! failure (ns ! parent (ns ! k))) = children (ns ! failure (ns ! parent (ns ! k)))"
    "\<And>j. cN (ns' ! j) = cN (ns ! j)"
  shows "failTarget ns' k = failTarget ns k"
  unfolding failTarget_def using assms by simp

lemma newFailure_deep:
  assumes s: "shape ns" and f: "fail_ok ns" and k: "k < length ns"
    and g: "depth (ns ! x) < depth (ns ! k) - 1" and x: "x < length ns"
  shows "0 < k" "parent (ns ! k) < k" "depth (ns ! parent (ns ! k)) = depth (ns ! k) - 1"
proof -
  note d = shapeD [OF s]
  from shape_depth_nonneg [OF s x] g have "2 \<le> depth (ns ! k)" by simp
  with d(2) show t0: "0 < k" by (cases "k = 0") auto
  from d(5) [OF k t0] show "parent (ns ! k) < k" .
  from d(6) [OF k t0] show "depth (ns ! parent (ns ! k)) = depth (ns ! k) - 1" by simp
qed

text \<open>A node that was just processed is settled.\<close>

lemma processNode_settles:
  assumes i: "nodes_ok ns" and k: "k < length ns" and p: "processNode k ns = Some ns'"
  shows "settled ns' k"
proof -
  from i have s: "shape ns" and f: "fail_ok ns" by (simp_all add: nodes_ok_def)
  from processNode_result [OF i k p] obtain out where
    w: "outputWalk ns (newFailure ns k) = Some out"
    and e: "ns' = ns[k := (ns ! k)\<lparr>failure := newFailure ns k, outputN := out\<rparr>]" .
  let ?F = "newFailure ns k"
  note nf = newFailure_ok [OF s f k]
  note sf = set_links_fields [OF k]
  have F: "failure (ns' ! j) = (if j = k then ?F else failure (ns ! j))" for j unfolding e by (rule sf(2))
  have O: "outputN (ns' ! j) = (if j = k then out else outputN (ns ! j))" for j unfolding e by (rule sf(3))
  have D: "depth (ns' ! j) = depth (ns ! j)" for j unfolding e by (rule sf(4))
  have I: "idN (ns' ! j) = idN (ns ! j)" for j unfolding e by (rule sf(5))
  have C: "cN (ns' ! j) = cN (ns ! j)" for j unfolding e by (rule sf(6))
  have P: "parent (ns' ! j) = parent (ns ! j)" for j unfolding e by (rule sf(7))
  have H: "children (ns' ! j) = children (ns ! j)" for j unfolding e by (rule sf(8))
  have 1: "newFailure ns' k = ?F"
  proof (cases "depth (ns ! ?F) < depth (ns ! k) - 1")
    case False
    then show ?thesis unfolding newFailure_def [of ns' k] F D by simp
  next
    case True
    note dp = newFailure_deep [OF s f k True nf(1)]
    from dp(2) have pk: "parent (ns ! k) \<noteq> k" by simp
    have ft: "failTarget ns' k = failTarget ns k"
      by (rule failTarget_cong) (simp_all add: P F H C pk)
    have g: "depth (ns ! failure (ns ! k)) < depth (ns ! k) - 1"
    proof (rule ccontr)
      assume "\<not> ?thesis"
      then have "?F = failure (ns ! k)" by (simp add: newFailure_def)
      with True \<open>\<not> ?thesis\<close> show False by simp
    qed
    from g have nF: "?F = (case failTarget ns k of None \<Rightarrow> failure (ns ! k) | Some fc \<Rightarrow> fc)"
      by (simp add: newFailure_def)
    from True have "newFailure ns' k = (case failTarget ns k of None \<Rightarrow> ?F | Some fc \<Rightarrow> fc)"
      unfolding newFailure_def [of ns' k] F D ft by simp
    with nF show ?thesis by (cases "failTarget ns k") simp_all
  qed
  have 2: "outputWalk ns' ?F = Some out"
  proof (cases "k = 0")
    case True
    with nf(3) w show ?thesis by simp
  next
    case False
    have "outputWalk ns' ?F = outputWalk ns ?F"
    proof (rule outputWalk_cong [OF s f nf(1)])
      fix j assume "j < length ns" "depth (ns ! j) \<le> depth (ns ! ?F)"
      with nf(2) False have "j \<noteq> k" by auto
      then show "idN (ns' ! j) = idN (ns ! j) \<and> failure (ns' ! j) = failure (ns ! j)"
        unfolding I F by simp
    qed
    with w show ?thesis by simp
  qed
  from 1 2 show ?thesis unfolding settled_def F O by simp
qed

text \<open>Processing a node leaves settled what is not deeper than the node.\<close>

lemma processNode_keeps_settled:
  assumes i: "nodes_ok ns" and j: "j < length ns" and p: "processNode j ns = Some ns'"
    and k: "k < length ns" and x: "settled ns k" and n: "k \<noteq> j"
    and d: "depth (ns ! k) \<le> depth (ns ! j)"
  shows "settled ns' k"
proof -
  from i have s: "shape ns" and f: "fail_ok ns" by (simp_all add: nodes_ok_def)
  from processNode_result [OF i j p] obtain out where
    e: "ns' = ns[j := (ns ! j)\<lparr>failure := newFailure ns j, outputN := out\<rparr>]" .
  note fd = fail_okD [OF f]
  note sf = set_links_fields [OF j]
  have F: "failure (ns' ! m) = (if m = j then newFailure ns j else failure (ns ! m))" for m
    unfolding e by (rule sf(2))
  have O: "outputN (ns' ! m) = (if m = j then out else outputN (ns ! m))" for m
    unfolding e by (rule sf(3))
  have D: "depth (ns' ! m) = depth (ns ! m)" for m unfolding e by (rule sf(4))
  have I: "idN (ns' ! m) = idN (ns ! m)" for m unfolding e by (rule sf(5))
  have C: "cN (ns' ! m) = cN (ns ! m)" for m unfolding e by (rule sf(6))
  have P: "parent (ns' ! m) = parent (ns ! m)" for m unfolding e by (rule sf(7))
  have H: "children (ns' ! m) = children (ns ! m)" for m unfolding e by (rule sf(8))
  from x have x1: "newFailure ns k = failure (ns ! k)"
    and x2: "outputWalk ns (failure (ns ! k)) = Some (outputN (ns ! k))" by (simp_all add: settled_def)
  have Fk: "failure (ns' ! k) = failure (ns ! k)" unfolding F using n by simp
  have 1: "newFailure ns' k = newFailure ns k"
  proof (cases "depth (ns ! failure (ns ! k)) < depth (ns ! k) - 1")
    case False
    then show ?thesis unfolding newFailure_def Fk D by simp
  next
    case True
    note dp = newFailure_deep [OF s f k True fd(2) [OF k]]
    from dp(3) d have pj: "parent (ns ! k) \<noteq> j" by auto
    have "failTarget ns' k = failTarget ns k"
      by (rule failTarget_cong) (simp_all add: P F H C pj)
    then show ?thesis unfolding newFailure_def Fk D by simp
  qed
  have 2: "outputWalk ns' (failure (ns ! k)) = outputWalk ns (failure (ns ! k))"
  proof (cases "k = 0")
    case True
    with fd(1) show ?thesis by simp
  next
    case False
    show ?thesis
    proof (rule outputWalk_cong [OF s f fd(2) [OF k]])
      fix m assume "m < length ns" "depth (ns ! m) \<le> depth (ns ! failure (ns ! k))"
      with fd(3) [OF k] False d have "m \<noteq> j" by auto
      then show "idN (ns' ! m) = idN (ns ! m) \<and> failure (ns' ! m) = failure (ns ! m)"
        unfolding I F by simp
    qed
  qed
  from 1 2 x1 x2 n show ?thesis unfolding settled_def Fk O by simp
qed

subsection \<open>The nodes that the breadth-first pass visits\<close>

lemma desc_bound:
  assumes s: "shape ns" and b: "\<forall>k\<in>S. k < length ns" and k: "k \<in> desc ns S"
  shows "k < length ns"
  using k
proof (induction rule: desc.induct)
  case (base k)
  with b show ?case by simp
next
  case (child k c)
  from shape_child(2) [OF s child(3) child(2)] show ?case .
qed

lemma desc_skeleton_sub:
  assumes e: "skeleton ns' = skeleton ns" and s: "shape ns" and b: "\<forall>k\<in>S. k < length ns"
    and k: "k \<in> desc ns S"
  shows "k \<in> desc ns' S"
  using k
proof (induction rule: desc.induct)
  case (base k)
  then show ?case by (rule desc.base)
next
  case (child k c)
  from desc_bound [OF s b child(1)] have "k < length ns" .
  from skeleton_nth(1) [OF e this] child(2) have "c \<in> set (children (ns' ! k))" by simp
  from desc.child [OF child(3) this] show ?case .
qed

lemma desc_skeleton:
  assumes e: "skeleton ns' = skeleton ns" and s: "shape ns" and b: "\<forall>k\<in>S. k < length ns"
  shows "desc ns' S = desc ns S"
proof -
  from skeleton_length [OF e] b have b': "\<forall>k\<in>S. k < length ns'" by simp
  have "k \<in> desc ns' S" if "k \<in> desc ns S" for k
    by (rule desc_skeleton_sub [OF e s b that])
  moreover have "k \<in> desc ns S" if "k \<in> desc ns' S" for k
    by (rule desc_skeleton_sub [OF e [symmetric] skeleton_shape [OF e s] b' that])
  ultimately show ?thesis by blast
qed

lemma desc_queue_sub:
  assumes "k \<in> desc ns (set (temp # rest))"
  shows "k = temp \<or> k \<in> desc ns (set (rest @ children (ns ! temp)))"
  using assms
proof (induction rule: desc.induct)
  case (base k)
  then show ?case by (auto intro: desc.base)
next
  case (child k c)
  show ?case
  proof (cases "k = temp")
    case True
    with child(2) have "c \<in> set (rest @ children (ns ! temp))" by simp
    then show ?thesis by (blast intro: desc.base)
  next
    case False
    with child(3) have "k \<in> desc ns (set (rest @ children (ns ! temp)))" by simp
    from desc.child [OF this child(2)] show ?thesis by simp
  qed
qed

lemma desc_queue_sup:
  assumes "k \<in> desc ns (set (rest @ children (ns ! temp)))"
  shows "k \<in> desc ns (set (temp # rest))"
  using assms
proof (induction rule: desc.induct)
  case (base k)
  show ?case
  proof (cases "k \<in> set rest")
    case True
    then show ?thesis by (intro desc.base) simp
  next
    case False
    with base have c: "k \<in> set (children (ns ! temp))" by simp
    have "temp \<in> desc ns (set (temp # rest))" by (intro desc.base) simp
    from desc.child [OF this c] show ?thesis .
  qed
next
  case (child k c)
  from desc.child [OF child(3) child(2)] show ?case .
qed

lemma level_q_skeleton:
  assumes e: "skeleton ns' = skeleton ns" and b: "\<forall>k\<in>set q. k < length ns" and l: "level_q ns q"
  shows "level_q ns' q"
proof -
  have m: "map (\<lambda>k. depth (ns' ! k)) q = map (\<lambda>k. depth (ns ! k)) q"
    using b skeleton_nth(2) [OF e] by simp
  have d: "depth (ns' ! j) = depth (ns ! j)" if "j \<in> set q" for j
    using b that skeleton_nth(2) [OF e] by simp
  from l have "sorted (map (\<lambda>k. depth (ns ! k)) q)"
    and "\<forall>i\<in>set q. \<forall>j\<in>set q. depth (ns ! j) \<le> depth (ns ! i) + 1" by (simp_all add: level_q_def)
  then show ?thesis unfolding level_q_def m using d by simp
qed

lemma sorted_const: "(\<And>x. x \<in> set xs \<Longrightarrow> f x = (v::int)) \<Longrightarrow> sorted (map f xs)"
  by (induction xs) simp_all

lemma level_q_step:
  assumes s: "shape ns" and k: "temp < length ns" and l: "level_q ns (temp # rest)"
  shows "level_q ns (rest @ children (ns ! temp))"
    "\<And>j. j \<in> set (rest @ children (ns ! temp)) \<Longrightarrow> depth (ns ! temp) \<le> depth (ns ! j)"
proof -
  let ?d = "\<lambda>k. depth (ns ! k)"
  let ?cs = "children (ns ! temp)"
  have c: "?d x = ?d temp + 1" if "x \<in> set ?cs" for x by (rule shape_child(4) [OF s k that])
  from l have sr: "sorted (map ?d rest)" and lo: "\<And>j. j \<in> set rest \<Longrightarrow> ?d temp \<le> ?d j"
    and hi: "\<And>i j. i \<in> set (temp # rest) \<Longrightarrow> j \<in> set (temp # rest) \<Longrightarrow> ?d j \<le> ?d i + 1"
    by (auto simp: level_q_def)
  have h1: "?d j \<le> ?d temp + 1" if "j \<in> set rest" for j using hi [of temp j] that by simp
  have "sorted (map ?d ?cs)" by (rule sorted_const [of ?cs ?d "?d temp + 1"]) (rule c)
  with sr have 1: "sorted (map ?d (rest @ ?cs))"
    using h1 c by (auto simp: sorted_append)
  have 2: "?d j \<le> ?d i + 1" if "i \<in> set (rest @ ?cs)" "j \<in> set (rest @ ?cs)" for i j
  proof (cases "i \<in> set rest")
    case ir: True
    show ?thesis
    proof (cases "j \<in> set rest")
      case True
      with ir hi [of i j] show ?thesis by simp
    next
      case False
      with that(2) have "j \<in> set ?cs" by simp
      with c [OF this] lo [OF ir] show ?thesis by simp
    qed
  next
    case False
    with that(1) have ic: "i \<in> set ?cs" by simp
    show ?thesis
    proof (cases "j \<in> set rest")
      case True
      with h1 [OF True] c [OF ic] show ?thesis by simp
    next
      case False
      with that(2) have "j \<in> set ?cs" by simp
      with c [OF this] c [OF ic] show ?thesis by simp
    qed
  qed
  from 1 2 show "level_q ns (rest @ ?cs)" unfolding level_q_def by blast
  show "?d temp \<le> ?d j" if "j \<in> set (rest @ ?cs)" for j
  proof (cases "j \<in> set rest")
    case True
    then show ?thesis by (rule lo)
  next
    case False
    with that have "j \<in> set ?cs" by simp
    from c [OF this] show ?thesis by simp
  qed
qed

subsection \<open>A second pass changes nothing\<close>

lemma bfs_settles:
  assumes "nodes_ok ns" "\<forall>k\<in>set q. k < length ns" "level_q ns q"
    "\<forall>k\<in>D. k < length ns \<and> settled ns k \<and> (\<forall>j\<in>set q. depth (ns ! k) \<le> depth (ns ! j))"
  shows "\<exists>ns'. bfs q ns = Some ns' \<and> skeleton ns' = skeleton ns \<and> nodes_ok ns'
    \<and> (\<forall>k\<in>D \<union> desc ns (set q). settled ns' k)"
  using assms
proof (induction "weight (length ns) q" arbitrary: q ns D rule: less_induct)
  case less
  show ?case
  proof (cases q)
    case Nil
    have "desc ns {} = {}"
    proof -
      have "False" if "k \<in> desc ns {}" for k using that by (induction rule: desc.induct) simp
      then show ?thesis by blast
    qed
    with Nil less.prems show ?thesis by simp
  next
    case (Cons temp rest)
    with less.prems have k: "temp < length ns" by simp
    from less.prems(1) have s: "shape ns" by (simp add: nodes_ok_def)
    from processNode_ok [OF less.prems(1) k] obtain ns1 where p: "processNode temp ns = Some ns1"
      "nodes_ok ns1" "skeleton ns1 = skeleton ns" by (elim exE conjE) (rule that)
    note l = skeleton_length [OF p(3)]
    note dq = skeleton_nth(2) [OF p(3)]
    let ?q = "rest @ children (ns ! temp)"
    let ?D = "insert temp D"
    have w: "weight (length ns1) ?q < weight (length ns) q"
      using weight_children [OF s k] Cons l by simp
    have b0: "\<forall>k\<in>set ?q. k < length ns"
      using less.prems(2) Cons shapeD(4) [OF s k] by auto
    then have b: "\<forall>k\<in>set ?q. k < length ns1" using l by simp
    from less.prems(3) Cons have lq: "level_q ns (temp # rest)" by simp
    note ls = level_q_step [OF s k lq]
    have lv: "level_q ns1 ?q" by (rule level_q_skeleton [OF p(3) b0 ls(1)])
    have dn: "\<forall>k\<in>?D. k < length ns1 \<and> settled ns1 k \<and> (\<forall>j\<in>set ?q. depth (ns1 ! k) \<le> depth (ns1 ! j))"
    proof
      fix x assume x: "x \<in> ?D"
      have xb: "x < length ns" using x k less.prems(4) by auto
      have xs: "settled ns1 x"
      proof (cases "x = temp")
        case True
        with processNode_settles [OF less.prems(1) k p(1)] show ?thesis by simp
      next
        case False
        with x have xd: "x \<in> D" by simp
        with less.prems(4) Cons have "settled ns x" "depth (ns ! x) \<le> depth (ns ! temp)" by simp_all
        from processNode_keeps_settled [OF less.prems(1) k p(1) xb this(1) False this(2)]
        show ?thesis .
      qed
      have xl: "depth (ns1 ! x) \<le> depth (ns1 ! j)" if "j \<in> set ?q" for j
      proof -
        from b0 that have jb: "j < length ns" by simp
        have "depth (ns ! x) \<le> depth (ns ! j)"
        proof (cases "x = temp")
          case True
          with ls(2) [OF that] show ?thesis by simp
        next
          case False
          with x have "x \<in> D" by simp
          with less.prems(4) Cons have "depth (ns ! x) \<le> depth (ns ! temp)" by simp
          with ls(2) [OF that] show ?thesis by simp
        qed
        with dq [OF xb] dq [OF jb] show ?thesis by simp
      qed
      from xb l xs xl show "x < length ns1 \<and> settled ns1 x \<and> (\<forall>j\<in>set ?q. depth (ns1 ! x) \<le> depth (ns1 ! j))"
        by simp
    qed
    from less.hyps [OF w p(2) b lv dn] obtain ns' where
      r: "bfs ?q ns1 = Some ns'" "skeleton ns' = skeleton ns1" "nodes_ok ns'"
      "\<forall>k\<in>?D \<union> desc ns1 (set ?q). settled ns' k" by (elim exE conjE) (rule that)
    have de: "desc ns1 (set ?q) = desc ns (set ?q)" by (rule desc_skeleton [OF p(3) s b0])
    have "settled ns' x" if "x \<in> D \<union> desc ns (set q)" for x
    proof -
      from that Cons desc_queue_sub [of x ns temp rest] have "x \<in> ?D \<union> desc ns (set ?q)" by auto
      with de have "x \<in> ?D \<union> desc ns1 (set ?q)" by simp
      with r(4) show ?thesis by blast
    qed
    with r(1,2,3) p(1,3) Cons show ?thesis by (simp add: bfs_Cons)
  qed
qed

lemma bfs_settled_id:
  assumes "nodes_ok ns" "\<forall>k\<in>set q. k < length ns" "\<forall>k\<in>desc ns (set q). settled ns k"
  shows "bfs q ns = Some ns"
  using assms
proof (induction "weight (length ns) q" arbitrary: q rule: less_induct)
  case less
  show ?case
  proof (cases q)
    case Nil
    then show ?thesis by simp
  next
    case (Cons temp rest)
    with less.prems have k: "temp < length ns" by simp
    from less.prems(1) have s: "shape ns" by (simp add: nodes_ok_def)
    have "temp \<in> desc ns (set q)" unfolding Cons by (intro desc.base) simp
    with less.prems(3) have "settled ns temp" by simp
    from settled_processNode [OF less.prems(1) k this] have p: "processNode temp ns = Some ns" .
    let ?q = "rest @ children (ns ! temp)"
    have w: "weight (length ns) ?q < weight (length ns) q"
      using weight_children [OF s k] Cons by simp
    have b: "\<forall>k\<in>set ?q. k < length ns"
      using less.prems(2) Cons shapeD(4) [OF s k] by auto
    have "\<forall>k\<in>desc ns (set ?q). settled ns k"
      using less.prems(3) desc_queue_sup [of _ ns rest temp] Cons by blast
    from less.hyps [OF w less.prems(1) b this] p Cons show ?thesis by (simp add: bfs_Cons)
  qed
qed

lemma addFailureLinks_twice:
  assumes i: "nodes_ok (trieNodes t)"
  shows "\<exists>t1. addFailureLinks t = Some t1 \<and> addFailureLinks t1 = Some t1"
proof -
  let ?ns = "trieNodes t"
  from i have s: "shape ?ns" by (simp add: nodes_ok_def)
  have b: "\<forall>k\<in>set [root]. k < length ?ns" using shapeD(1) [OF s] by (simp add: root_def)
  have l: "level_q ?ns [root]" by (simp add: level_q_def)
  have d: "\<forall>k\<in>{}. k < length ?ns \<and> settled ?ns k \<and> (\<forall>j\<in>set [root]. depth (?ns ! k) \<le> depth (?ns ! j))"
    by simp
  from bfs_settles [OF i b l d] obtain ns' where
    r: "bfs [root] ?ns = Some ns'" "skeleton ns' = skeleton ?ns" "nodes_ok ns'"
    "\<forall>k\<in>{} \<union> desc ?ns (set [root]). settled ns' k" by (elim exE conjE) (rule that)
  have "desc ns' (set [root]) = desc ?ns (set [root])" by (rule desc_skeleton [OF r(2) s b])
  with r(4) have a: "\<forall>k\<in>desc ns' (set [root]). settled ns' k" by simp
  from b skeleton_length [OF r(2)] have b': "\<forall>k\<in>set [root]. k < length ns'" by simp
  from bfs_settled_id [OF r(3) b' a] have "bfs [root] ns' = Some ns'" .
  with r(1) show ?thesis by (simp add: addFailureLinks_def)
qed

text \<open>
  C9. On a trie built by any calls of the construction interface (with or without
  finalised links), the link construction returns, and run again on its result it
  returns this result unchanged: the failure and output links of the second run are
  those of the first.
\<close>

theorem link_construction_idempotent:
  assumes "calls cs xs keyword_trie_init = Some t"
  shows "\<exists>t1. addFailureLinks t = Some t1 \<and> addFailureLinks t1 = Some t1"
proof -
  from calls_init [of cs xs] assms have "nodes_ok (trieNodes t)" by simp
  then show ?thesis by (rule addFailureLinks_twice)
qed

theorem link_construction_idempotent_witness:
  "addFailureLinks unlinked_trie = Some linked_trie \<and> linked_trie \<noteq> unlinked_trie
   \<and> addFailureLinks linked_trie = Some linked_trie"
proof -
  have 1: "calls True [AddString ''hers'' False, AddString ''she'' False, AddString ''he'' False]
     keyword_trie_init = Some unlinked_trie"
    unfolding unlinked_trie_def by code_simp
  have 2: "addFailureLinks unlinked_trie = Some linked_trie"
    unfolding linked_trie_def unlinked_trie_def by code_simp
  have 3: "linked_trie \<noteq> unlinked_trie"
    unfolding linked_trie_def unlinked_trie_def by code_simp
  from link_construction_idempotent [OF 1] 2 have "addFailureLinks linked_trie = Some linked_trie" by simp
  with 2 3 show ?thesis by simp
qed

end
